theory Spec2Isabelle
  imports Main
begin

section \<open>Data model of pg\_normalize\_query.c\<close>

text \<open>
  The C type \<open>int\<close> is modelled by \<open>int\<close>. Offsets, lengths and counts are bounded by
  the size of the query text, so their arithmetic stays far from the 32-bit limits.
  The one expression whose operand is taken from the text itself is the number printed
  after the dollar sign, \<open>i + 1 + highest_extern_param_id\<close>: there the two's complement
  wrap-around of a 32-bit \<open>int\<close> is written out (\<open>int32\<close>), which is what the
  \<open>-fwrapv\<close> build of PostgreSQL and of its extensions computes.
\<close>

definition int32 :: "int \<Rightarrow> int" where
  "int32 x = (x + 2147483648) mod 4294967296 - 2147483648"

text \<open>\<open>struct pgnqLocationLen\<close>; the field \<open>length\<close> is named \<open>length'\<close> here.\<close>

record pgnqLocationLen =
  location :: int
  length' :: int

text \<open>
  \<open>struct pgnqConstLocations\<close>. The array \<open>clocations\<close> is the list of all allocated
  entries (\<open>clocations_buf_size\<close> of them); the first \<open>clocations_count\<close> are valid.
\<close>

record pgnqConstLocations =
  clocations :: "pgnqLocationLen list"
  clocations_buf_size :: int
  clocations_count :: int
  highest_extern_param_id :: int

text \<open>
  The ways a call can abort: a failed \<open>Assert\<close> (the model is the assert-enabled
  build), a read outside the query text, and the stack depth guard of the tree walker.
\<close>

datatype failure = AssertFailed string | ReadOutOfBounds | StackDepthExceeded

text \<open>
  An entry of freshly allocated memory. Its contents are indeterminate in C; no entry
  is read before \<open>pgnq_record_const_location\<close> has written it.
\<close>

definition fresh_entry :: pgnqLocationLen where
  "fresh_entry = \<lparr>location = 0, length' = 0\<rparr>"

text \<open>\<open>repalloc\<close>: the old entries are kept, the array is extended to \<open>n\<close> entries.\<close>

definition repalloc :: "pgnqLocationLen list \<Rightarrow> int \<Rightarrow> pgnqLocationLen list" where
  "repalloc xs n = xs @ replicate (nat n - length xs) fresh_entry"

section \<open>Recording constant locations\<close>

definition pgnq_record_const_location :: "pgnqConstLocations \<Rightarrow> int \<Rightarrow> pgnqConstLocations" where
  "pgnq_record_const_location jstate loc =
     (if loc \<ge> 0 then
        (let j1 = (if clocations_count jstate \<ge> clocations_buf_size jstate
                   then jstate\<lparr>clocations_buf_size := clocations_buf_size jstate * 2,
                               clocations := repalloc (clocations jstate) (clocations_buf_size jstate * 2)\<rparr>
                   else jstate)
         in j1\<lparr>clocations := (clocations j1)[nat (clocations_count j1) := \<lparr>location = loc, length' = - 1\<rparr>],
               clocations_count := clocations_count j1 + 1\<rparr>)
      else jstate)"

text \<open>The workspace set up by \<open>pg_normalize_query\<close> before the tree walk.\<close>

definition initial_jstate :: pgnqConstLocations where
  "initial_jstate = \<lparr>clocations = replicate 32 fresh_entry, clocations_buf_size = 32,
                      clocations_count = 0, highest_extern_param_id = 0\<rparr>"

section \<open>The tree walker\<close>

text \<open>
  The parse tree comes from PostgreSQL's parser, which is not part of this module. A
  node carries its tag, the integer the walker reads from it (the location of an
  \<open>A_Const\<close>, the number of a \<open>ParamRef\<close>), the field the walker selects for the
  wrapper kinds (\<open>arg\<close>, \<open>stmt\<close>, \<open>args\<close>, \<open>query\<close>, \<open>options\<close>; \<open>None\<close> is the null
  pointer) and the child fields in the order \<open>raw_expression_tree_walker\<close> visits them.
  \<open>T_Other\<close> stands for every node tag the \<open>switch\<close> sends to \<open>default\<close>.
\<close>

datatype node_tag = T_A_Const | T_ParamRef | T_DefElem | T_RawStmt | T_VariableSetStmt
  | T_CopyStmt | T_ExplainStmt | T_AlterRoleStmt | T_DeclareCursorStmt | T_Other

datatype node = Node (tag: node_tag) (ival: int) (inner: "node option") (fields: "node option list")

text \<open>
  \<open>pgnq_const_record_walker\<close>, with the state passed through and the stack depth guard
  as a counter of the nesting still allowed: \<open>check_stack_depth\<close> aborts when it is used up.

  Modelled from the spec: \<open>raw_expression_tree_walker\<close> (PostgreSQL's nodeFuncs.c, not
  part of this module) is the generic structural recursion that calls the walker on
  every child field of the node in order and stops as soon as one call returns true.
\<close>

fun pgnq_const_record_walker :: "nat \<Rightarrow> node option \<Rightarrow> pgnqConstLocations \<Rightarrow> failure + (bool \<times> pgnqConstLocations)"
  and raw_expression_tree_walker :: "nat \<Rightarrow> node option list \<Rightarrow> pgnqConstLocations \<Rightarrow> failure + (bool \<times> pgnqConstLocations)"
where
  "pgnq_const_record_walker d None jstate = Inr (False, jstate)"
| "pgnq_const_record_walker 0 (Some n) jstate = Inl StackDepthExceeded"
| "pgnq_const_record_walker (Suc d) (Some (Node T_A_Const v nodeReturn fs)) jstate =
     raw_expression_tree_walker d fs (pgnq_record_const_location jstate v)"
| "pgnq_const_record_walker (Suc d) (Some (Node T_ParamRef v nodeReturn fs)) jstate =
     raw_expression_tree_walker d fs
       (if v > highest_extern_param_id jstate then jstate\<lparr>highest_extern_param_id := v\<rparr> else jstate)"
| "pgnq_const_record_walker (Suc d) (Some (Node T_DefElem v nodeReturn fs)) jstate =
     (if nodeReturn \<noteq> None then pgnq_const_record_walker d nodeReturn jstate
      else raw_expression_tree_walker d fs jstate)"
| "pgnq_const_record_walker (Suc d) (Some (Node T_RawStmt v nodeReturn fs)) jstate =
     (if nodeReturn \<noteq> None then pgnq_const_record_walker d nodeReturn jstate
      else raw_expression_tree_walker d fs jstate)"
| "pgnq_const_record_walker (Suc d) (Some (Node T_VariableSetStmt v nodeReturn fs)) jstate =
     (if nodeReturn \<noteq> None then pgnq_const_record_walker d nodeReturn jstate
      else raw_expression_tree_walker d fs jstate)"
| "pgnq_const_record_walker (Suc d) (Some (Node T_CopyStmt v nodeReturn fs)) jstate =
     (if nodeReturn \<noteq> None then pgnq_const_record_walker d nodeReturn jstate
      else raw_expression_tree_walker d fs jstate)"
| "pgnq_const_record_walker (Suc d) (Some (Node T_ExplainStmt v nodeReturn fs)) jstate =
     (if nodeReturn \<noteq> None then pgnq_const_record_walker d nodeReturn jstate
      else raw_expression_tree_walker d fs jstate)"
| "pgnq_const_record_walker (Suc d) (Some (Node T_AlterRoleStmt v nodeReturn fs)) jstate =
     (if nodeReturn \<noteq> None then pgnq_const_record_walker d nodeReturn jstate
      else raw_expression_tree_walker d fs jstate)"
| "pgnq_const_record_walker (Suc d) (Some (Node T_DeclareCursorStmt v nodeReturn fs)) jstate =
     (if nodeReturn \<noteq> None then pgnq_const_record_walker d nodeReturn jstate
      else raw_expression_tree_walker d fs jstate)"
| "pgnq_const_record_walker (Suc d) (Some (Node T_Other v nodeReturn fs)) jstate =
     raw_expression_tree_walker d fs jstate"
| "raw_expression_tree_walker d [] jstate = Inr (False, jstate)"
| "raw_expression_tree_walker d (c # cs) jstate =
     (case pgnq_const_record_walker d c jstate of
        Inl e \<Rightarrow> Inl e
      | Inr (True, j1) \<Rightarrow> Inr (True, j1)
      | Inr (False, j1) \<Rightarrow> raw_expression_tree_walker d cs j1)"

section \<open>The scanner\<close>

text \<open>
  Modelled from the spec: the core scanner of PostgreSQL (\<open>scanner_init\<close>,
  \<open>core_yylex\<close>, \<open>yyextra.scanbuf\<close>; not part of this module). The token stream the
  scanner yields for the query is a parameter. Each token has its code (0 signals the
  end of the input), its start offset \<open>yylloc\<close>, and the offset just after its text,
  where flex stores a zero byte in the working copy \<open>scanbuf\<close> of the text while the
  token is the current one. Once the stream is used up, \<open>core_yylex\<close> returns 0.
\<close>

record token =
  tok_code :: int
  tok_loc :: int
  tok_end :: nat

record scanner =
  source :: string
  pending :: "token list"
  scanbuf :: string

abbreviation NUL :: char where
  "NUL \<equiv> CHR 0x00"

definition scanner_init :: "string \<Rightarrow> token list \<Rightarrow> scanner" where
  "scanner_init query toks = \<lparr>source = query, pending = toks, scanbuf = query @ [NUL, NUL]\<rparr>"

definition core_yylex :: "scanner \<Rightarrow> int \<times> int \<times> scanner" where
  "core_yylex sc =
     (case pending sc of
        [] \<Rightarrow> (0, int (length (source sc)), sc\<lparr>scanbuf := source sc @ [NUL, NUL]\<rparr>)
      | t # ts \<Rightarrow> (tok_code t, tok_loc t,
                  sc\<lparr>pending := ts, scanbuf := (source sc @ [NUL, NUL])[tok_end t := NUL]\<rparr>))"

text \<open>
  Reading a byte of a C string: the terminator sits at offset \<open>length s\<close>. Offsets
  past it are outside the string; the resolver reads at \<open>loc\<close> only after the scanner
  has reported an offset \<open>yylloc \<ge> loc\<close>, and the model reads a zero byte there.
\<close>

definition byte_at :: "string \<Rightarrow> int \<Rightarrow> char" where
  "byte_at s i = (if 0 \<le> i \<and> nat i < length s then s ! nat i else NUL)"

text \<open>\<open>strlen(buf + loc)\<close>: the number of bytes from \<open>loc\<close> to the next zero byte.\<close>

definition strlen_at :: "string \<Rightarrow> int \<Rightarrow> int" where
  "strlen_at buf loc = int (length (takeWhile (\<lambda>c. c \<noteq> NUL) (drop (nat loc) buf)))"

text \<open>
  Modelled from the spec: \<open>scanner_isspace\<close> (PostgreSQL's scansup.c, not part of this
  module), the whitespace characters of the scanner: space, tab, newline, carriage
  return and form feed.
\<close>

definition scanner_isspace :: "char \<Rightarrow> bool" where
  "scanner_isspace ch = (ch = CHR '' '' \<or> ch = CHR 0x09 \<or> ch = CHR 0x0A \<or> ch = CHR 0x0D \<or> ch = CHR 0x0C)"

section \<open>Filling in the lengths of the constants\<close>

text \<open>
  The loop \<open>for (; j >= 0 && scanner_isspace(scanbuf[loc + j]); j--)\<close>; its value is
  the final \<open>j\<close>.
\<close>

function trim_loop :: "string \<Rightarrow> int \<Rightarrow> int \<Rightarrow> int" where
  "trim_loop buf loc j =
     (if j \<ge> 0 \<and> scanner_isspace (byte_at buf (loc + j)) then trim_loop buf loc (j - 1) else j)"
  by pat_completeness auto
termination
  by (relation "measure (\<lambda>(buf, loc, j). nat (j + 1))") auto

text \<open>
  Lines 201 to 215: the length stored for the constant at \<open>loc\<close>, measured in the
  scanner's working copy, with the adjustment for strings with Unicode escapes.
\<close>

definition const_length :: "string \<Rightarrow> int \<Rightarrow> int" where
  "const_length buf loc =
     (let len = strlen_at buf loc in
      if len > 4 \<and> (byte_at buf loc = CHR ''u'' \<or> byte_at buf loc = CHR ''U'')
         \<and> byte_at buf (loc + 1) = CHR ''&'' \<and> byte_at buf (loc + 2) = CHR 0x27
      then trim_loop buf loc (len - 1) + 1
      else len)"

text \<open>
  The inner \<open>for (;;)\<close> loop for the constant at \<open>loc\<close>. The result is \<open>None\<close> when the
  loop is left with \<open>tok == 0\<close> (nothing is stored), and the stored length otherwise,
  together with the state of the scanner.
\<close>

function lex_loop :: "string \<Rightarrow> int \<Rightarrow> scanner \<Rightarrow> int option \<times> scanner" where
  "lex_loop query loc sc =
     (case core_yylex sc of
        (tok, yylloc, sc1) \<Rightarrow>
          if tok = 0 then (None, sc1)
          else if yylloc \<ge> loc then
            (if byte_at query loc = CHR ''-'' then
               (case core_yylex sc1 of
                  (tok2, yylloc2, sc2) \<Rightarrow>
                    if tok2 = 0 then (None, sc2)
                    else (Some (const_length (scanbuf sc2) loc), sc2))
             else (Some (const_length (scanbuf sc1) loc), sc1))
          else lex_loop query loc sc1)"
  by pat_completeness auto
termination
  by (relation "measure (\<lambda>(query, loc, sc). length (pending sc))")
     (auto simp: core_yylex_def split: list.splits)

text \<open>
  The outer loop over the sorted records, from the record at index \<open>i\<close> on: the list is
  \<open>locs[i]\<close>, \<open>locs[i + 1]\<close>, ... up to the count. \<open>break\<close> leaves the remaining
  records as they are.
\<close>

fun fill_loop :: "string \<Rightarrow> int \<Rightarrow> scanner \<Rightarrow> pgnqLocationLen list \<Rightarrow> failure + pgnqLocationLen list" where
  "fill_loop query last_loc sc [] = Inr []"
| "fill_loop query last_loc sc (r # rs) =
     (let loc = location r in
      if loc < 0 then Inl (AssertFailed ''loc >= 0'')
      else if loc \<le> last_loc then
        (case fill_loop query last_loc sc rs of
           Inl e \<Rightarrow> Inl e
         | Inr rs' \<Rightarrow> Inr (r # rs'))
      else
        (case lex_loop query loc sc of
           (None, sc1) \<Rightarrow> Inr (r # rs)
         | (Some len, sc1) \<Rightarrow>
             (case fill_loop query loc sc1 rs of
                Inl e \<Rightarrow> Inl e
              | Inr rs' \<Rightarrow> Inr (r\<lparr>length' := len\<rparr> # rs'))))"

text \<open>
  \<open>pgnq_fill_in_constant_lengths\<close>. \<open>qsort\<close> with \<open>pgnq_comp_location\<close> orders the
  valid entries by location; entries with equal locations are told apart only by their
  lengths, which are all -1 when the walker has filled the array.
\<close>

definition pgnq_fill_in_constant_lengths ::
  "pgnqConstLocations \<Rightarrow> string \<Rightarrow> token list \<Rightarrow> failure + pgnqConstLocations" where
  "pgnq_fill_in_constant_lengths jstate query toks =
     (let n = nat (clocations_count jstate);
          locs = (if clocations_count jstate > 1
                  then sort_key location (take n (clocations jstate))
                  else take n (clocations jstate))
      in case fill_loop query (- 1) (scanner_init query toks) locs of
           Inl e \<Rightarrow> Inl e
         | Inr locs' \<Rightarrow> Inr (jstate\<lparr>clocations := locs' @ drop n (clocations jstate)\<rparr>))"

section \<open>Building the normalized query\<close>

text \<open>\<open>sprintf(..., "$%d", n)\<close>: the dollar sign and the decimal digits of \<open>n\<close>.\<close>

fun dec_digits :: "nat \<Rightarrow> string" where
  "dec_digits n = (if n < 10 then [''0123456789'' ! n]
                   else dec_digits (n div 10) @ [''0123456789'' ! (n mod 10)])"

definition show_int :: "int \<Rightarrow> string" where
  "show_int n = (if n < 0 then CHR ''-'' # dec_digits (nat (- n)) else dec_digits (nat n))"

definition sprintf_param :: "int \<Rightarrow> string" where
  "sprintf_param n = CHR ''$'' # show_int n"

text \<open>
  The source bytes of \<open>memcpy(norm_query + n_quer_loc, query + quer_loc, len_to_wrt)\<close>:
  the string \<open>query\<close> with its terminator is the memory that may be read.
\<close>

definition memcpy_src :: "string \<Rightarrow> int \<Rightarrow> int \<Rightarrow> failure + string" where
  "memcpy_src query quer_loc len_to_wrt =
     (if quer_loc < 0 \<or> quer_loc + len_to_wrt > int (length query) + 1 then Inl ReadOutOfBounds
      else Inr (take (nat len_to_wrt) (drop (nat quer_loc) (query @ [NUL]))))"

text \<open>
  The local variables of \<open>pgnq_build_normalized_query\<close> that the loop changes;
  \<open>norm_query\<close> holds the bytes written so far.
\<close>

record build_state =
  quer_loc :: int
  n_quer_loc :: int
  last_off :: int
  last_tok_len :: int
  norm_query :: string

definition build_start :: build_state where
  "build_start = \<lparr>quer_loc = 0, n_quer_loc = 0, last_off = 0, last_tok_len = 0, norm_query = []\<rparr>"

text \<open>
  The loop over the records, from index \<open>i\<close> on; \<open>h\<close> is \<open>highest_extern_param_id\<close>.
\<close>

fun build_loop :: "int \<Rightarrow> string \<Rightarrow> int \<Rightarrow> int \<Rightarrow> build_state \<Rightarrow> pgnqLocationLen list \<Rightarrow> failure + build_state" where
  "build_loop h query query_loc i st [] = Inr st"
| "build_loop h query query_loc i st (r # rs) =
     (let off = location r - query_loc;
          tok_len = length' r
      in if tok_len < 0 then build_loop h query query_loc (i + 1) st rs
         else
           (let len_to_wrt = off - last_off st - last_tok_len st
            in if len_to_wrt < 0 then Inl (AssertFailed ''len_to_wrt >= 0'')
               else
                 (case memcpy_src query (quer_loc st) len_to_wrt of
                    Inl e \<Rightarrow> Inl e
                  | Inr bytes \<Rightarrow>
                      (let param = sprintf_param (int32 (i + 1 + h))
                       in build_loop h query query_loc (i + 1)
                            \<lparr>quer_loc = off + tok_len,
                             n_quer_loc = n_quer_loc st + len_to_wrt + int (length param),
                             last_off = off,
                             last_tok_len = tok_len,
                             norm_query = norm_query st @ bytes @ param\<rparr>
                            rs))))"

text \<open>
  \<open>pgnq_build_normalized_query\<close>: the result is the normalized text and its length
  (the new value of \<open>*query_len_p\<close>).
\<close>

definition pgnq_build_normalized_query ::
  "pgnqConstLocations \<Rightarrow> string \<Rightarrow> int \<Rightarrow> int \<Rightarrow> token list \<Rightarrow> failure + (string \<times> int)" where
  "pgnq_build_normalized_query jstate0 query query_loc query_len toks =
     (case pgnq_fill_in_constant_lengths jstate0 query toks of
        Inl e \<Rightarrow> Inl e
      | Inr jstate \<Rightarrow>
          (let norm_query_buflen = query_len + clocations_count jstate * 10
           in case build_loop (highest_extern_param_id jstate) query query_loc 0 build_start
                     (take (nat (clocations_count jstate)) (clocations jstate)) of
                Inl e \<Rightarrow> Inl e
              | Inr st \<Rightarrow>
                  (let len_to_wrt = query_len - quer_loc st
                   in if len_to_wrt < 0 then Inl (AssertFailed ''len_to_wrt >= 0'')
                      else
                        (case memcpy_src query (quer_loc st) len_to_wrt of
                           Inl e \<Rightarrow> Inl e
                         | Inr bytes \<Rightarrow>
                             if n_quer_loc st + len_to_wrt > norm_query_buflen
                             then Inl (AssertFailed ''n_quer_loc <= norm_query_buflen'')
                             else Inr (norm_query st @ bytes, n_quer_loc st + len_to_wrt)))))"

section \<open>The entry point\<close>

text \<open>
  \<open>pg_normalize_query\<close> for a text \<open>sql\<close>, given what the parser and the scanner of
  PostgreSQL produce for it (the tree and the token stream) and the nesting the stack
  allows.
\<close>

definition pg_normalize_query :: "string \<Rightarrow> node option \<Rightarrow> token list \<Rightarrow> nat \<Rightarrow> failure + string" where
  "pg_normalize_query sql tree toks depth =
     (case pgnq_const_record_walker depth tree initial_jstate of
        Inl e \<Rightarrow> Inl e
      | Inr (b, jstate) \<Rightarrow>
          (case pgnq_build_normalized_query jstate sql 0 (int (length sql)) toks of
             Inl e \<Rightarrow> Inl e
           | Inr (out, query_len) \<Rightarrow> Inr out))"

section \<open>Notions used in the statements\<close>

text \<open>The valid entries of the array: the first \<open>clocations_count\<close> ones.\<close>

definition valid_entries :: "pgnqConstLocations \<Rightarrow> pgnqLocationLen list" where
  "valid_entries jstate = take (nat (clocations_count jstate)) (clocations jstate)"

text \<open>The entry \<open>pgnq_record_const_location\<close> writes for a location.\<close>

definition new_entry :: "int \<Rightarrow> pgnqLocationLen" where
  "new_entry loc = \<lparr>location = loc, length' = - 1\<rparr>"

text \<open>A sequence of insertions, one call per location.\<close>

definition record_all :: "pgnqConstLocations \<Rightarrow> int list \<Rightarrow> pgnqConstLocations" where
  "record_all jstate locs = foldl pgnq_record_const_location jstate locs"

text \<open>
  What every state reached from the workspace of \<open>pg_normalize_query\<close> satisfies: the
  count is within the capacity, and the array has as many entries as the capacity says.
\<close>

definition jstate_inv :: "pgnqConstLocations \<Rightarrow> bool" where
  "jstate_inv jstate = (32 \<le> clocations_buf_size jstate \<and> 0 \<le> clocations_count jstate
      \<and> clocations_count jstate \<le> clocations_buf_size jstate
      \<and> length (clocations jstate) = nat (clocations_buf_size jstate))"

text \<open>The seven node kinds for which the walker selects one field.\<close>

fun is_wrapper :: "node_tag \<Rightarrow> bool" where
  "is_wrapper T_DefElem = True"
| "is_wrapper T_RawStmt = True"
| "is_wrapper T_VariableSetStmt = True"
| "is_wrapper T_CopyStmt = True"
| "is_wrapper T_ExplainStmt = True"
| "is_wrapper T_AlterRoleStmt = True"
| "is_wrapper T_DeclareCursorStmt = True"
| "is_wrapper t = False"

text \<open>
  The nodes of a tree that the locator encounters, in the order of the traversal the
  specification describes: the node itself, then the selected field alone for a
  wrapper whose selected field is not null, and all child fields otherwise.
\<close>

fun encountered :: "node option \<Rightarrow> node list" where
  "encountered None = []"
| "encountered (Some (Node t v sel fs)) =
     Node t v sel fs #
       (if is_wrapper t \<and> sel \<noteq> None then encountered sel else concat (map encountered fs))"

text \<open>The nesting of that traversal: the stack depth a tree needs.\<close>

fun nesting :: "node option \<Rightarrow> nat" where
  "nesting None = 0"
| "nesting (Some (Node t v sel fs)) =
     Suc (if is_wrapper t \<and> sel \<noteq> None then nesting sel else fold max (map nesting fs) 0)"

text \<open>What the walker does at one node, apart from the recursion.\<close>

definition visit_node :: "pgnqConstLocations \<Rightarrow> node \<Rightarrow> pgnqConstLocations" where
  "visit_node jstate n =
     (if tag n = T_A_Const then pgnq_record_const_location jstate (ival n)
      else if tag n = T_ParamRef \<and> ival n > highest_extern_param_id jstate
      then jstate\<lparr>highest_extern_param_id := ival n\<rparr>
      else jstate)"

text \<open>The numbers of the parameter nodes and the locations of the constant nodes of a list of nodes.\<close>

definition param_numbers :: "node list \<Rightarrow> int list" where
  "param_numbers ns = map ival (filter (\<lambda>n. tag n = T_ParamRef) ns)"

definition const_locations :: "node list \<Rightarrow> int list" where
  "const_locations ns = map ival (filter (\<lambda>n. tag n = T_A_Const) ns)"

text \<open>
  The text of the current token as the resolver sees it: the bytes of the working copy
  from the location of the constant up to the zero byte.
\<close>

definition const_text :: "string \<Rightarrow> int \<Rightarrow> string" where
  "const_text buf loc = takeWhile (\<lambda>c. c \<noteq> NUL) (drop (nat loc) buf)"

text \<open>
  A quoted string with Unicode escapes, as the resolver recognizes it: more than four
  bytes, starting with \<open>u\<close> or \<open>U\<close>, an ampersand and a single quote.
\<close>

definition unicode_quoted :: "string \<Rightarrow> bool" where
  "unicode_quoted s = (length s > 4 \<and> (s ! 0 = CHR ''u'' \<or> s ! 0 = CHR ''U'')
      \<and> s ! 1 = CHR ''&'' \<and> s ! 2 = CHR 0x27)"

text \<open>The number of whitespace characters at the end of a text.\<close>

definition trailing_spaces :: "string \<Rightarrow> nat" where
  "trailing_spaces s = length (takeWhile scanner_isspace (rev s))"

text \<open>The working copy of the scanner while \<open>t\<close> is the current token.\<close>

definition token_buf :: "string \<Rightarrow> token \<Rightarrow> string" where
  "token_buf query t = (query @ [NUL, NUL])[tok_end t := NUL]"

text \<open>
  What the specification asks of the scanner: the text holds no zero byte (it is a C
  string), and the tokens come in the order of the text, each one non-empty, inside
  the text and after the end of the one before. \<open>tokens_from p n ts\<close> says so for the
  tokens \<open>ts\<close> of a text of \<open>n\<close> bytes when the scanner stands at offset \<open>p\<close>.
\<close>

fun tokens_from :: "nat \<Rightarrow> nat \<Rightarrow> token list \<Rightarrow> bool" where
  "tokens_from p n [] = True"
| "tokens_from p n (t # ts) =
     (int p \<le> tok_loc t \<and> nat (tok_loc t) < tok_end t \<and> tok_end t \<le> n \<and> tokens_from (tok_end t) n ts)"

definition scanner_contract :: "string \<Rightarrow> token list \<Rightarrow> bool" where
  "scanner_contract query toks = (NUL \<notin> set query \<and> tokens_from 0 (length query) toks)"

text \<open>The tokens left once the scanner has discarded those that start before \<open>loc\<close>.\<close>

definition skip_to :: "int \<Rightarrow> token list \<Rightarrow> token list" where
  "skip_to loc ts = dropWhile (\<lambda>t. tok_code t \<noteq> 0 \<and> tok_loc t < loc) ts"

text \<open>
  A record \<open>r'\<close> is the record \<open>r\<close> resolved on a token of \<open>ts\<close>: the location is the
  same, and the length is the positive one computed while that token is the current
  one; it starts inside the text and ends at or before the end of the token.
\<close>

definition resolved_by :: "string \<Rightarrow> token list \<Rightarrow> pgnqLocationLen \<Rightarrow> pgnqLocationLen \<Rightarrow> bool" where
  "resolved_by query ts r r' =
     (\<exists>t \<in> set ts. tok_code t \<noteq> 0 \<and> location r < int (tok_end t) \<and> tok_end t \<le> length query
        \<and> r' = r\<lparr>length' := const_length (token_buf query t) (location r)\<rparr>
        \<and> 0 < length' r' \<and> location r + length' r' \<le> int (tok_end t))"

text \<open>The records the loops run over: the valid entries, once \<open>qsort\<close> has ordered them.\<close>

definition sorted_entries :: "pgnqConstLocations \<Rightarrow> pgnqLocationLen list" where
  "sorted_entries jstate = sort_key location (valid_entries jstate)"

text \<open>
  One pass through the body of the builder's loop for a record that is not skipped:
  the copy of the text before the constant and the parameter symbol in its place.
\<close>

definition emit_param :: "int \<Rightarrow> string \<Rightarrow> int \<Rightarrow> int \<Rightarrow> build_state \<Rightarrow> pgnqLocationLen \<Rightarrow> failure + build_state" where
  "emit_param h query query_loc i st r =
     (let off = location r - query_loc;
          len_to_wrt = off - last_off st - last_tok_len st;
          param = sprintf_param (int32 (i + 1 + h))
      in if len_to_wrt < 0 then Inl (AssertFailed ''len_to_wrt >= 0'')
         else case memcpy_src query (quer_loc st) len_to_wrt of
                Inl e \<Rightarrow> Inl e
              | Inr bytes \<Rightarrow>
                  Inr \<lparr>quer_loc = off + length' r,
                       n_quer_loc = n_quer_loc st + len_to_wrt + int (length param),
                       last_off = off,
                       last_tok_len = length' r,
                       norm_query = norm_query st @ bytes @ param\<rparr>)"

text \<open>
  The normalized text as the specification describes it, for a full statement
  (\<open>query_loc = 0\<close>): the text from offset \<open>pos\<close> on, in which each record that is not
  skipped is replaced by the dollar sign and a number. The record at index \<open>i\<close> of the
  array gets the number \<open>i + 1 + h\<close>; the index counts the skipped records too.
\<close>

fun substituted :: "int \<Rightarrow> string \<Rightarrow> int \<Rightarrow> int \<Rightarrow> pgnqLocationLen list \<Rightarrow> string" where
  "substituted h text i pos [] = drop (nat pos) text"
| "substituted h text i pos (r # rs) =
     (if length' r < 0 then substituted h text (i + 1) pos rs
      else take (nat (location r - pos)) (drop (nat pos) text) @ sprintf_param (i + 1 + h)
           @ substituted h text (i + 1) (location r + length' r) rs)"

text \<open>
  The end of \<open>pgnq_build_normalized_query\<close>, after the loop: the copy of the remaining
  bytes and the check of the length against the space allowed for the result.
\<close>

definition copy_rest :: "string \<Rightarrow> int \<Rightarrow> int \<Rightarrow> build_state \<Rightarrow> failure + (string \<times> int)" where
  "copy_rest query query_len norm_query_buflen st =
     (let len_to_wrt = query_len - quer_loc st
      in if len_to_wrt < 0 then Inl (AssertFailed ''len_to_wrt >= 0'')
         else case memcpy_src query (quer_loc st) len_to_wrt of
                Inl e \<Rightarrow> Inl e
              | Inr bytes \<Rightarrow>
                  if n_quer_loc st + len_to_wrt > norm_query_buflen
                  then Inl (AssertFailed ''n_quer_loc <= norm_query_buflen'')
                  else Inr (norm_query st @ bytes, n_quer_loc st + len_to_wrt))"

text \<open>
  What the resolver trusts of the parser, which has read the same text as the scanner.
  Every recorded location is the start of a token of the scanner, or lies after the
  start of every token the scanner delivers (the scanner has been cut short). And when
  the byte at a recorded location is a minus sign, the token after it, which the
  resolver takes as the number the sign belongs to, is not a recorded location itself
  (\<open>minus_ok\<close>).
\<close>

fun minus_ok :: "string \<Rightarrow> int list \<Rightarrow> token list \<Rightarrow> bool" where
  "minus_ok query locs (t # t2 # ts) =
     ((tok_loc t \<in> set locs \<and> byte_at query (tok_loc t) = CHR ''-'' \<longrightarrow> tok_loc t2 \<notin> set locs)
      \<and> minus_ok query locs (t2 # ts))"
| "minus_ok query locs ts = True"

definition located :: "token list \<Rightarrow> int \<Rightarrow> bool" where
  "located toks loc = ((\<exists>t \<in> set toks. tok_loc t = loc) \<or> (\<forall>t \<in> set toks. tok_loc t < loc))"

definition parser_contract :: "string \<Rightarrow> token list \<Rightarrow> int list \<Rightarrow> bool" where
  "parser_contract query toks locs =
     ((\<forall>loc \<in> set locs. 0 \<le> loc \<and> located toks loc) \<and> minus_ok query locs toks)"

text \<open>
  The records that are not skipped lie one after the other in a text of \<open>n\<close> bytes, from
  the offset \<open>e\<close> on, each of them at least one byte long.
\<close>

fun spans_from :: "int \<Rightarrow> int \<Rightarrow> pgnqLocationLen list \<Rightarrow> bool" where
  "spans_from e n [] = True"
| "spans_from e n (r # rs) =
     (if length' r < 0 then spans_from e n rs
      else e \<le> location r \<and> 0 < length' r \<and> location r + length' r \<le> n
           \<and> spans_from (location r + length' r) n rs)"

section \<open>Example inputs\<close>

text \<open>
  A tree as the parser builds it for \<open>SELECT $3, 2 ...\<close>: a list with one raw statement
  whose statement holds two parameter nodes and two constant nodes, one of them with
  an unknown location.
\<close>

definition example_tree :: "node option" where
  "example_tree =
     Some (Node T_Other 0 None
       [Some (Node T_RawStmt 0
          (Some (Node T_Other 0 None
             [Some (Node T_ParamRef 3 None []), None, Some (Node T_A_Const 11 None []),
              Some (Node T_ParamRef 2 None []), Some (Node T_A_Const (- 1) None [])]))
          [])])"

text \<open>
  The working copy of the scanner for \<open>SELECT U&'a'   FROM t\<close> while the string with
  Unicode escapes is the current token: the scanner has read on to the \<open>F\<close> looking for
  \<open>UESCAPE\<close>, and the zero byte stands at offset 15, after the three spaces.
\<close>

definition example_uescape_buf :: string where
  "example_uescape_buf =
     (''SELECT U&'' @ [CHR 0x27] @ ''a'' @ [CHR 0x27] @ ''   FROM t'' @ [NUL, NUL])[15 := NUL]"

text \<open>
  The text \<open>SELECT 1, 2, 3\<close> with a scanner that stops after the second constant: the
  tokens are \<open>SELECT\<close>, \<open>1\<close>, the comma and \<open>2\<close>.
\<close>

definition example_query :: string where
  "example_query = ''SELECT 1, 2, 3''"

definition example_tokens :: "token list" where
  "example_tokens =
     [\<lparr>tok_code = 1, tok_loc = 0, tok_end = 6\<rparr>, \<lparr>tok_code = 1, tok_loc = 7, tok_end = 8\<rparr>,
      \<lparr>tok_code = 1, tok_loc = 8, tok_end = 9\<rparr>, \<lparr>tok_code = 1, tok_loc = 10, tok_end = 11\<rparr>]"

text \<open>
  The text \<open>SELECT 1, 2\<close> with all its tokens, and the sorted records of a tree that
  refers to the first constant twice.
\<close>

definition example_dup_query :: string where
  "example_dup_query = ''SELECT 1, 2''"

definition example_dup_tokens :: "token list" where
  "example_dup_tokens =
     [\<lparr>tok_code = 1, tok_loc = 0, tok_end = 6\<rparr>, \<lparr>tok_code = 1, tok_loc = 7, tok_end = 8\<rparr>,
      \<lparr>tok_code = 1, tok_loc = 8, tok_end = 9\<rparr>, \<lparr>tok_code = 1, tok_loc = 10, tok_end = 11\<rparr>]"

text \<open>The scanner of that text once the first constant has been the current token.\<close>

definition example_dup_scanner :: scanner where
  "example_dup_scanner =
     \<lparr>source = example_dup_query,
      pending = [\<lparr>tok_code = 1, tok_loc = 8, tok_end = 9\<rparr>, \<lparr>tok_code = 1, tok_loc = 10, tok_end = 11\<rparr>],
      scanbuf = token_buf example_dup_query \<lparr>tok_code = 1, tok_loc = 7, tok_end = 8\<rparr>\<rparr>"

text \<open>A tree that refers to the first constant of \<open>SELECT 1, 2\<close> twice.\<close>

definition example_dup_tree :: "node option" where
  "example_dup_tree =
     Some (Node T_Other 0 None
       [Some (Node T_A_Const 7 None []), Some (Node T_A_Const 7 None []),
        Some (Node T_A_Const 10 None [])])"

text \<open>The text \<open>SELECT $3, 2\<close>, its tokens and its tree.\<close>

definition example_param_query :: string where
  "example_param_query = ''SELECT $3, 2''"

definition example_param_tokens :: "token list" where
  "example_param_tokens =
     [\<lparr>tok_code = 1, tok_loc = 0, tok_end = 6\<rparr>, \<lparr>tok_code = 1, tok_loc = 7, tok_end = 9\<rparr>,
      \<lparr>tok_code = 1, tok_loc = 9, tok_end = 10\<rparr>, \<lparr>tok_code = 1, tok_loc = 11, tok_end = 12\<rparr>]"

definition example_param_tree :: "node option" where
  "example_param_tree =
     Some (Node T_Other 0 None
       [Some (Node T_ParamRef 3 None []), Some (Node T_A_Const 11 None [])])"

text \<open>
  The text \<open>SELECT $2147483647, 1\<close>, its tokens and its tree: the parameter has the
  largest number an \<open>int\<close> holds.
\<close>

definition example_max_query :: string where
  "example_max_query = ''SELECT $2147483647, 1''"

definition example_max_tokens :: "token list" where
  "example_max_tokens =
     [\<lparr>tok_code = 1, tok_loc = 0, tok_end = 6\<rparr>, \<lparr>tok_code = 1, tok_loc = 7, tok_end = 18\<rparr>,
      \<lparr>tok_code = 1, tok_loc = 18, tok_end = 19\<rparr>, \<lparr>tok_code = 1, tok_loc = 20, tok_end = 21\<rparr>]"

definition example_max_tree :: "node option" where
  "example_max_tree =
     Some (Node T_Other 0 None
       [Some (Node T_ParamRef 2147483647 None []), Some (Node T_A_Const 20 None [])])"

text \<open>The text \<open>SELECT -1\<close> and its tokens: \<open>SELECT\<close>, the minus sign and the number.\<close>

definition example_neg_query :: string where
  "example_neg_query = ''SELECT -1''"

definition example_neg_tokens :: "token list" where
  "example_neg_tokens =
     [\<lparr>tok_code = 1, tok_loc = 0, tok_end = 6\<rparr>, \<lparr>tok_code = 1, tok_loc = 7, tok_end = 8\<rparr>,
      \<lparr>tok_code = 1, tok_loc = 8, tok_end = 9\<rparr>]"

section \<open>Insertion into the array of locations\<close>

lemma jstate_inv_initial: "jstate_inv initial_jstate"
  by (simp add: jstate_inv_def initial_jstate_def)

lemma record_negative: "loc < 0 \<Longrightarrow> pgnq_record_const_location jstate loc = jstate"
  by (simp add: pgnq_record_const_location_def)

lemma record_inv:
  assumes "jstate_inv jstate"
  shows "jstate_inv (pgnq_record_const_location jstate loc)"
  using assms
  by (auto simp: jstate_inv_def pgnq_record_const_location_def Let_def repalloc_def)

lemma record_count:
  "0 \<le> loc \<Longrightarrow> clocations_count (pgnq_record_const_location jstate loc) = clocations_count jstate + 1"
  by (simp add: pgnq_record_const_location_def Let_def)

lemma record_buf_size:
  "clocations_buf_size (pgnq_record_const_location jstate loc) =
     (if 0 \<le> loc \<and> clocations_count jstate \<ge> clocations_buf_size jstate
      then clocations_buf_size jstate * 2 else clocations_buf_size jstate)"
  by (simp add: pgnq_record_const_location_def Let_def)

lemma record_highest:
  "highest_extern_param_id (pgnq_record_const_location jstate loc) = highest_extern_param_id jstate"
  by (simp add: pgnq_record_const_location_def Let_def)

lemma take_update_append:
  "n < length xs \<Longrightarrow> take (Suc n) (xs[n := v]) = take n xs @ [v]"
  by (simp add: take_Suc_conv_app_nth)

lemma record_valid_entries:
  assumes "jstate_inv jstate" "0 \<le> loc"
  shows "valid_entries (pgnq_record_const_location jstate loc) = valid_entries jstate @ [new_entry loc]"
proof (cases "clocations_count jstate \<ge> clocations_buf_size jstate")
  case True
  with assms(1) have eq: "clocations_count jstate = clocations_buf_size jstate"
    and len: "length (clocations jstate) = nat (clocations_count jstate)"
    and pos: "0 < clocations_count jstate"
    by (auto simp: jstate_inv_def)
  let ?n = "nat (clocations_count jstate)"
  let ?xs = "repalloc (clocations jstate) (clocations_buf_size jstate * 2)"
  have lt: "?n < length ?xs"
    using eq len pos by (simp add: repalloc_def)
  have tk: "take ?n ?xs = take ?n (clocations jstate)"
    using len by (simp add: repalloc_def)
  have "valid_entries (pgnq_record_const_location jstate loc) = take (Suc ?n) (?xs[?n := new_entry loc])"
    using True assms(2) pos
    by (simp add: valid_entries_def pgnq_record_const_location_def Let_def new_entry_def nat_add_distrib)
  also have "\<dots> = take ?n ?xs @ [new_entry loc]"
    using lt by (rule take_update_append)
  finally show ?thesis
    using tk by (simp add: valid_entries_def)
next
  case False
  let ?n = "nat (clocations_count jstate)"
  from False assms(1) have lt: "?n < length (clocations jstate)" and nn: "0 \<le> clocations_count jstate"
    by (auto simp: jstate_inv_def)
  have "valid_entries (pgnq_record_const_location jstate loc) = take (Suc ?n) ((clocations jstate)[?n := new_entry loc])"
    using False assms(2) nn
    by (simp add: valid_entries_def pgnq_record_const_location_def Let_def new_entry_def nat_add_distrib)
  also have "\<dots> = take ?n (clocations jstate) @ [new_entry loc]"
    using lt by (rule take_update_append)
  finally show ?thesis
    by (simp add: valid_entries_def)
qed

lemma record_all_snoc:
  "record_all jstate (locs @ [loc]) = pgnq_record_const_location (record_all jstate locs) loc"
  by (simp add: record_all_def)

lemma record_all_inv: "jstate_inv jstate \<Longrightarrow> jstate_inv (record_all jstate locs)"
  by (induction locs rule: rev_induct) (simp_all add: record_all_def record_inv)

lemma record_all_valid_entries:
  "jstate_inv jstate \<Longrightarrow>
   valid_entries (record_all jstate locs) = valid_entries jstate @ map new_entry (filter (\<lambda>l. 0 \<le> l) locs)"
proof (induction locs rule: rev_induct)
  case Nil
  then show ?case by (simp add: record_all_def)
next
  case (snoc loc locs)
  show ?case
  proof (cases "0 \<le> loc")
    case True
    then show ?thesis
      using snoc record_valid_entries [OF record_all_inv [OF snoc.prems] True]
      by (simp add: record_all_snoc)
  next
    case False
    then show ?thesis
      using snoc by (simp add: record_all_snoc record_negative)
  qed
qed

text \<open>
  Claim C7. For every sequence of insertions into the workspace of a call: the valid
  entries are exactly the non-negative locations, in insertion order, each with length
  -1 (a negative location is dropped and changes nothing, the count included); an
  insertion of a non-negative location keeps all entries stored before, adds the new
  one with length -1 and increments the count; and the capacity is exactly doubled when
  the count has reached it, and is unchanged otherwise.
\<close>

theorem record_const_location_stores:
  fixes locs :: "int list" and loc :: int
  defines "jstate \<equiv> record_all initial_jstate locs"
  shows "valid_entries jstate = map new_entry (filter (\<lambda>l. 0 \<le> l) locs)
       \<and> clocations_count jstate = int (length (filter (\<lambda>l. 0 \<le> l) locs))
       \<and> (loc < 0 \<longrightarrow> pgnq_record_const_location jstate loc = jstate)
       \<and> (0 \<le> loc \<longrightarrow>
            valid_entries (pgnq_record_const_location jstate loc) = valid_entries jstate @ [new_entry loc]
          \<and> clocations_count (pgnq_record_const_location jstate loc) = clocations_count jstate + 1
          \<and> clocations_buf_size (pgnq_record_const_location jstate loc) =
              (if clocations_count jstate = clocations_buf_size jstate
               then 2 * clocations_buf_size jstate else clocations_buf_size jstate)
          \<and> length (clocations (pgnq_record_const_location jstate loc)) =
              nat (clocations_buf_size (pgnq_record_const_location jstate loc)))"
proof -
  have inv: "jstate_inv jstate"
    unfolding jstate_def by (rule record_all_inv [OF jstate_inv_initial])
  have ve: "valid_entries jstate = map new_entry (filter (\<lambda>l. 0 \<le> l) locs)"
    unfolding jstate_def using record_all_valid_entries [OF jstate_inv_initial, of locs]
    by (simp add: valid_entries_def initial_jstate_def)
  have "length (valid_entries jstate) = nat (clocations_count jstate)"
    using inv by (auto simp: valid_entries_def jstate_inv_def)
  with ve inv have cnt: "clocations_count jstate = int (length (filter (\<lambda>l. 0 \<le> l) locs))"
    by (simp add: jstate_inv_def)
  have le: "clocations_count jstate \<le> clocations_buf_size jstate"
    using inv by (simp add: jstate_inv_def)
  have inv': "jstate_inv (pgnq_record_const_location jstate loc)"
    using inv by (rule record_inv)
  show ?thesis
    using ve cnt le inv' record_valid_entries [OF inv, of loc] 
    by (auto simp: record_negative record_count record_buf_size jstate_inv_def)
qed

theorem record_const_location_stores_witness:
  "valid_entries (record_all initial_jstate [5, - 1, 9]) = [new_entry 5, new_entry 9]
   \<and> clocations_count (record_all initial_jstate [5, - 1, 9]) = 2
   \<and> pgnq_record_const_location (record_all initial_jstate [5, - 1, 9]) (- 3)
       = record_all initial_jstate [5, - 1, 9]
   \<and> valid_entries (pgnq_record_const_location (record_all initial_jstate [5, - 1, 9]) 12)
       = [new_entry 5, new_entry 9, new_entry 12]
   \<and> clocations_buf_size (pgnq_record_const_location (record_all initial_jstate [5, - 1, 9]) 12) = 32
   \<and> clocations_count (record_all initial_jstate (replicate 32 7)) = 32
   \<and> clocations_buf_size (pgnq_record_const_location (record_all initial_jstate (replicate 32 7)) 8) = 64
   \<and> length (clocations (pgnq_record_const_location (record_all initial_jstate (replicate 32 7)) 8)) = 64"
proof -
  have b: "clocations_buf_size (record_all initial_jstate locs) = 32"
    if "length (filter (\<lambda>l. 0 \<le> l) locs) < 32" for locs
    using that
  proof (induction locs rule: rev_induct)
    case Nil
    then show ?case by (simp add: record_all_def initial_jstate_def)
  next
    case (snoc l ls)
    then show ?case
      using record_const_location_stores [of ls l]
      by (auto simp: record_all_snoc record_buf_size split: if_splits)
  qed
  have b3: "clocations_buf_size (record_all initial_jstate [5, - 1, 9]) = 32"
    by (rule b) simp
  have b31: "clocations_buf_size (record_all initial_jstate (replicate 31 7)) = 32"
    by (rule b) simp
  have r32: "replicate 32 (7::int) = replicate 31 7 @ [7]"
    using replicate_add [of 31 1 "7::int"] by simp
  have b32: "clocations_buf_size (record_all initial_jstate (replicate 32 7)) = 32"
    using record_const_location_stores [of "replicate 31 7" 7] b31
    by (simp add: r32 record_all_snoc)
  show ?thesis
    using record_const_location_stores [of "[5, - 1, 9]" "- 3"]
      record_const_location_stores [of "[5, - 1, 9]" 12]
      record_const_location_stores [of "replicate 32 7" 8] b3 b32
    by simp
qed


section \<open>The walk over the tree\<close>

lemma fold_max_ge: "(m::nat) \<le> fold max xs m"
  by (induction xs arbitrary: m) (auto intro: order_trans [OF max.cobounded2])

lemma fold_max_mono: "(a::nat) \<le> b \<Longrightarrow> fold max xs a \<le> fold max xs b"
  by (induction xs arbitrary: a b) (auto simp: max.coboundedI1 max.coboundedI2)

lemma fold_max_member: "(x::nat) \<in> set xs \<Longrightarrow> x \<le> fold max xs m"
proof (induction xs arbitrary: m)
  case Nil
  then show ?case by simp
next
  case (Cons y ys)
  show ?case
  proof (cases "x = y")
    case True
    have "x \<le> max y m" using True by simp
    also have "\<dots> \<le> fold max ys (max y m)" by (rule fold_max_ge)
    finally show ?thesis by simp
  next
    case False
    with Cons show ?thesis by simp
  qed
qed

lemma walker_visits:
  "nesting tree \<le> d \<Longrightarrow>
     pgnq_const_record_walker d tree jstate = Inr (False, foldl visit_node jstate (encountered tree))"
  "(\<forall>c \<in> set fs. nesting c \<le> d) \<Longrightarrow>
     raw_expression_tree_walker d fs jstate
       = Inr (False, foldl visit_node jstate (concat (map encountered fs)))"
proof (induction d tree jstate and d fs jstate
    rule: pgnq_const_record_walker_raw_expression_tree_walker.induct)
  case (1 d jstate)
  then show ?case by simp
next
  case (2 n jstate)
  then show ?case by (cases n) simp
next
  case (3 d v nodeReturn fs jstate)
  have "\<forall>c \<in> set fs. nesting c \<le> d"
    using "3.prems" fold_max_member [of _ "map nesting fs" 0] by fastforce
  then show ?case using "3.IH" by (simp add: visit_node_def)
next
  case (4 d v nodeReturn fs jstate)
  have "\<forall>c \<in> set fs. nesting c \<le> d"
    using "4.prems" fold_max_member [of _ "map nesting fs" 0] by fastforce
  then show ?case using "4.IH" by (simp add: visit_node_def)
next
  case (5 d v nodeReturn fs jstate)
  show ?case
  proof (cases nodeReturn)
    case None
    have "\<forall>c \<in> set fs. nesting c \<le> d"
      using "5.prems" None fold_max_member [of _ "map nesting fs" 0] by fastforce
    then show ?thesis using "5.IH" None by (simp add: visit_node_def)
  next
    case (Some a)
    then show ?thesis using "5.IH" "5.prems" by (simp add: visit_node_def)
  qed
next
  case (6 d v nodeReturn fs jstate)
  show ?case
  proof (cases nodeReturn)
    case None
    have "\<forall>c \<in> set fs. nesting c \<le> d"
      using "6.prems" None fold_max_member [of _ "map nesting fs" 0] by fastforce
    then show ?thesis using "6.IH" None by (simp add: visit_node_def)
  next
    case (Some a)
    then show ?thesis using "6.IH" "6.prems" by (simp add: visit_node_def)
  qed
next
  case (7 d v nodeReturn fs jstate)
  show ?case
  proof (cases nodeReturn)
    case None
    have "\<forall>c \<in> set fs. nesting c \<le> d"
      using "7.prems" None fold_max_member [of _ "map nesting fs" 0] by fastforce
    then show ?thesis using "7.IH" None by (simp add: visit_node_def)
  next
    case (Some a)
    then show ?thesis using "7.IH" "7.prems" by (simp add: visit_node_def)
  qed
next
  case (8 d v nodeReturn fs jstate)
  show ?case
  proof (cases nodeReturn)
    case None
    have "\<forall>c \<in> set fs. nesting c \<le> d"
      using "8.prems" None fold_max_member [of _ "map nesting fs" 0] by fastforce
    then show ?thesis using "8.IH" None by (simp add: visit_node_def)
  next
    case (Some a)
    then show ?thesis using "8.IH" "8.prems" by (simp add: visit_node_def)
  qed
next
  case (9 d v nodeReturn fs jstate)
  show ?case
  proof (cases nodeReturn)
    case None
    have "\<forall>c \<in> set fs. nesting c \<le> d"
      using "9.prems" None fold_max_member [of _ "map nesting fs" 0] by fastforce
    then show ?thesis using "9.IH" None by (simp add: visit_node_def)
  next
    case (Some a)
    then show ?thesis using "9.IH" "9.prems" by (simp add: visit_node_def)
  qed
next
  case (10 d v nodeReturn fs jstate)
  show ?case
  proof (cases nodeReturn)
    case None
    have "\<forall>c \<in> set fs. nesting c \<le> d"
      using "10.prems" None fold_max_member [of _ "map nesting fs" 0] by fastforce
    then show ?thesis using "10.IH" None by (simp add: visit_node_def)
  next
    case (Some a)
    then show ?thesis using "10.IH" "10.prems" by (simp add: visit_node_def)
  qed
next
  case (11 d v nodeReturn fs jstate)
  show ?case
  proof (cases nodeReturn)
    case None
    have "\<forall>c \<in> set fs. nesting c \<le> d"
      using "11.prems" None fold_max_member [of _ "map nesting fs" 0] by fastforce
    then show ?thesis using "11.IH" None by (simp add: visit_node_def)
  next
    case (Some a)
    then show ?thesis using "11.IH" "11.prems" by (simp add: visit_node_def)
  qed
next
  case (12 d v nodeReturn fs jstate)
  have "\<forall>c \<in> set fs. nesting c \<le> d"
    using "12.prems" fold_max_member [of _ "map nesting fs" 0] by fastforce
  then show ?case using "12.IH" by (simp add: visit_node_def)
next
  case (13 d jstate)
  then show ?case by simp
next
  case (14 d c cs jstate)
  from "14.prems" have c: "nesting c \<le> d" and cs: "\<forall>c \<in> set cs. nesting c \<le> d"
    by simp_all
  have w: "pgnq_const_record_walker d c jstate = Inr (False, foldl visit_node jstate (encountered c))"
    using "14.IH"(1) c by simp
  have "raw_expression_tree_walker d cs (foldl visit_node jstate (encountered c))
      = Inr (False, foldl visit_node (foldl visit_node jstate (encountered c)) (concat (map encountered cs)))"
    using "14.IH"(2) [OF w refl _ cs] by simp
  then show ?case using w by simp
qed


lemma visit_node_highest:
  "highest_extern_param_id (visit_node jstate n) =
     (if tag n = T_ParamRef then max (ival n) (highest_extern_param_id jstate)
      else highest_extern_param_id jstate)"
  by (simp add: visit_node_def record_highest)

lemma foldl_visit_highest:
  "highest_extern_param_id (foldl visit_node jstate ns)
     = fold max (param_numbers ns) (highest_extern_param_id jstate)"
  by (induction ns arbitrary: jstate) (simp_all add: param_numbers_def visit_node_highest)

lemma visit_node_inv: "jstate_inv jstate \<Longrightarrow> jstate_inv (visit_node jstate n)"
  by (auto simp: visit_node_def record_inv) (simp add: jstate_inv_def)

lemma visit_node_entries:
  assumes "jstate_inv jstate"
  shows "valid_entries (visit_node jstate n) =
     valid_entries jstate @ (if tag n = T_A_Const \<and> 0 \<le> ival n then [new_entry (ival n)] else [])"
proof (cases "tag n = T_A_Const")
  case True
  then show ?thesis
    using record_valid_entries [OF assms, of "ival n"] record_negative [of "ival n" jstate]
    by (cases "0 \<le> ival n") (simp_all add: visit_node_def)
next
  case False
  then show ?thesis by (simp add: visit_node_def valid_entries_def)
qed

lemma foldl_visit_entries:
  "jstate_inv jstate \<Longrightarrow>
     valid_entries (foldl visit_node jstate ns)
       = valid_entries jstate @ map new_entry (filter (\<lambda>l. 0 \<le> l) (const_locations ns))"
proof (induction ns arbitrary: jstate)
  case Nil
  then show ?case by (simp add: const_locations_def)
next
  case (Cons n ns)
  have "valid_entries (foldl visit_node (visit_node jstate n) ns)
      = valid_entries (visit_node jstate n) @ map new_entry (filter (\<lambda>l. 0 \<le> l) (const_locations ns))"
    by (rule Cons.IH [OF visit_node_inv [OF Cons.prems]])
  then show ?case
    using visit_node_entries [OF Cons.prems, of n] by (simp add: const_locations_def)
qed

text \<open>
  Claim C8. The highest parameter number starts at 0, and after the walk over a tree
  (whose nesting the stack allows) it is the maximum of 0 and of the numbers of the
  parameter nodes encountered; the entries recorded are the non-negative locations of
  the constant nodes encountered, so a parameter node is never recorded as a constant
  location.
\<close>

theorem walker_highest_param:
  assumes "nesting tree \<le> d"
  shows "highest_extern_param_id initial_jstate = 0
       \<and> (\<exists>jstate. pgnq_const_record_walker d tree initial_jstate = Inr (False, jstate)
            \<and> highest_extern_param_id jstate = Max (set (0 # param_numbers (encountered tree)))
            \<and> valid_entries jstate
                = map new_entry (filter (\<lambda>l. 0 \<le> l) (const_locations (encountered tree))))"
proof -
  let ?j = "foldl visit_node initial_jstate (encountered tree)"
  have w: "pgnq_const_record_walker d tree initial_jstate = Inr (False, ?j)"
    using assms by (rule walker_visits(1))
  have h0: "highest_extern_param_id initial_jstate = 0"
    by (simp add: initial_jstate_def)
  have h: "highest_extern_param_id ?j = Max (set (0 # param_numbers (encountered tree)))"
    by (simp only: foldl_visit_highest h0 Max.set_eq_fold)
  have "valid_entries initial_jstate = []"
    by (simp add: valid_entries_def initial_jstate_def)
  then have e: "valid_entries ?j = map new_entry (filter (\<lambda>l. 0 \<le> l) (const_locations (encountered tree)))"
    using foldl_visit_entries [OF jstate_inv_initial, of "encountered tree"] by simp
  show ?thesis using w h0 h e by blast
qed

theorem walker_highest_param_witness:
  "nesting example_tree \<le> 4
   \<and> (\<exists>jstate. pgnq_const_record_walker 4 example_tree initial_jstate = Inr (False, jstate)
        \<and> highest_extern_param_id jstate = 3
        \<and> valid_entries jstate = [new_entry 11])"
proof -
  have n: "nesting example_tree \<le> 4"
    by (simp add: example_tree_def)
  have p: "param_numbers (encountered example_tree) = [3, 2]"
    by (simp add: example_tree_def param_numbers_def)
  have c: "const_locations (encountered example_tree) = [11, - 1]"
    by (simp add: example_tree_def const_locations_def)
  show ?thesis
    using walker_highest_param [OF n] n by (simp add: p c)
qed


text \<open>
  Claim C10. For each of the seven wrapper kinds: when the selected field is null the
  walker does not skip the node but calls the generic recursion over its child fields,
  exactly as it does for a node kind of the default branch; when the selected field is
  not null it recurses into that field alone.
\<close>

theorem wrapper_null_field_falls_back:
  assumes "is_wrapper t"
  shows "pgnq_const_record_walker (Suc d) (Some (Node t v None fs)) jstate
           = raw_expression_tree_walker d fs jstate
       \<and> pgnq_const_record_walker (Suc d) (Some (Node t v None fs)) jstate
           = pgnq_const_record_walker (Suc d) (Some (Node T_Other v None fs)) jstate
       \<and> pgnq_const_record_walker (Suc d) (Some (Node t v (Some n) fs)) jstate
           = pgnq_const_record_walker d (Some n) jstate"
  using assms by (cases t) simp_all

theorem wrapper_null_field_falls_back_witness:
  "is_wrapper T_CopyStmt
   \<and> pgnq_const_record_walker 2 (Some (Node T_CopyStmt 0 None [Some (Node T_A_Const 5 None [])])) initial_jstate
       = raw_expression_tree_walker 1 [Some (Node T_A_Const 5 None [])] initial_jstate
   \<and> valid_entries (snd (projr (pgnq_const_record_walker 2
         (Some (Node T_CopyStmt 0 None [Some (Node T_A_Const 5 None [])])) initial_jstate)))
       = [new_entry 5]
   \<and> valid_entries (snd (projr (pgnq_const_record_walker 2
         (Some (Node T_CopyStmt 0 (Some (Node T_A_Const 7 None [])) [Some (Node T_A_Const 5 None [])]))
         initial_jstate)))
       = [new_entry 7]"
proof -
  have w: "is_wrapper T_CopyStmt" by simp
  have s2: "(2::nat) = Suc 1" and s1: "(1::nat) = Suc 0" by simp_all
  have r: "valid_entries (pgnq_record_const_location initial_jstate loc) = [new_entry loc]"
    if "0 \<le> loc" for loc
    using record_valid_entries [OF jstate_inv_initial that]
    by (simp add: valid_entries_def initial_jstate_def)
  have e5: "valid_entries (snd (projr (raw_expression_tree_walker 1 [Some (Node T_A_Const 5 None [])] initial_jstate)))
      = [new_entry 5]"
    by (simp add: s1 r)
  have e7: "valid_entries (snd (projr (pgnq_const_record_walker 1 (Some (Node T_A_Const 7 None [])) initial_jstate)))
      = [new_entry 7]"
    by (simp add: s1 r)
  show ?thesis
    using wrapper_null_field_falls_back [OF w, of 1 0 "[Some (Node T_A_Const 5 None [])]" initial_jstate
        "Node T_A_Const 7 None []"] e5 e7
    by (simp only: w s2 [symmetric] simp_thms)
qed

section \<open>The length of one constant\<close>

declare trim_loop.simps [simp del]

lemma strlen_at_const_text: "strlen_at buf loc = int (length (const_text buf loc))"
  by (simp add: strlen_at_def const_text_def)

lemma const_text_nth:
  assumes "0 \<le> loc" "0 \<le> j" "nat j < length (const_text buf loc)"
  shows "byte_at buf (loc + j) = const_text buf loc ! nat j"
proof -
  let ?d = "drop (nat loc) buf"
  have "length (const_text buf loc) \<le> length ?d"
    unfolding const_text_def by (rule length_takeWhile_le)
  with assms(3) have lt: "nat j < length ?d" by simp
  then have lt2: "nat loc + nat j < length buf" by simp
  have "const_text buf loc ! nat j = ?d ! nat j"
    using assms(3) unfolding const_text_def by (rule takeWhile_nth)
  also have "\<dots> = buf ! (nat loc + nat j)"
    using lt2 by simp
  finally show ?thesis
    using assms(1,2) lt2 by (simp add: byte_at_def nat_add_distrib)
qed

lemma trim_loop_spec:
  assumes "0 \<le> loc" "- 1 \<le> j" "j < int (length (const_text buf loc))"
  shows "trim_loop buf loc j + 1
     = int (length (dropWhile scanner_isspace (rev (take (nat (j + 1)) (const_text buf loc)))))"
  using assms
proof (induction buf loc j rule: trim_loop.induct)
  case (1 buf loc j)
  let ?t = "const_text buf loc"
  show ?case
  proof (cases "j \<ge> 0")
    case False
    with "1.prems" have "j = - 1" by simp
    then show ?thesis by (simp add: trim_loop.simps)
  next
    case True
    then have nj: "nat j < length ?t" using "1.prems" by simp
    have b: "byte_at buf (loc + j) = ?t ! nat j"
      using const_text_nth [OF "1.prems"(1) True nj] .
    have tk: "take (nat (j + 1)) ?t = take (nat j) ?t @ [?t ! nat j]"
      using True nj by (simp add: nat_add_distrib take_Suc_conv_app_nth)
    show ?thesis
    proof (cases "scanner_isspace (?t ! nat j)")
      case sp: True
      have "trim_loop buf loc j = trim_loop buf loc (j - 1)"
        using True sp b by (simp add: trim_loop.simps [of buf loc j])
      moreover have "trim_loop buf loc (j - 1) + 1
          = int (length (dropWhile scanner_isspace (rev (take (nat (j - 1 + 1)) ?t))))"
        using "1.IH" True sp b "1.prems" by simp
      ultimately show ?thesis using sp tk by simp
    next
      case nsp: False
      have "trim_loop buf loc j = j"
        using nsp b by (simp add: trim_loop.simps [of buf loc j])
      then show ?thesis using nsp tk True nj by simp
    qed
  qed
qed

lemma length_dropWhile_rev:
  "length (dropWhile P (rev s)) = length s - length (takeWhile P (rev s))"
proof -
  have "length (takeWhile P (rev s)) + length (dropWhile P (rev s)) = length (rev s)"
    by (simp only: length_append [symmetric] takeWhile_dropWhile_id)
  then show ?thesis by simp
qed

lemma const_length_spec:
  assumes "0 \<le> loc"
  shows "const_length buf loc =
     (if unicode_quoted (const_text buf loc)
      then int (length (const_text buf loc) - trailing_spaces (const_text buf loc))
      else int (length (const_text buf loc)))"
proof -
  let ?t = "const_text buf loc"
  have cond: "(strlen_at buf loc > 4 \<and> (byte_at buf loc = CHR ''u'' \<or> byte_at buf loc = CHR ''U'')
         \<and> byte_at buf (loc + 1) = CHR ''&'' \<and> byte_at buf (loc + 2) = CHR 0x27)
      = unicode_quoted ?t"
  proof (cases "length ?t > 4")
    case False
    then show ?thesis by (simp add: strlen_at_const_text unicode_quoted_def)
  next
    case True
    have "byte_at buf (loc + 0) = ?t ! nat 0"
      using True by (intro const_text_nth [OF assms]) auto
    moreover have "byte_at buf (loc + 1) = ?t ! nat 1"
      using True by (intro const_text_nth [OF assms]) simp_all
    moreover have "byte_at buf (loc + 2) = ?t ! nat 2"
      using True by (intro const_text_nth [OF assms]) simp_all
    ultimately show ?thesis
      using True by (simp add: strlen_at_const_text unicode_quoted_def)
  qed
  have cl: "const_length buf loc =
      (if unicode_quoted ?t then trim_loop buf loc (int (length ?t) - 1) + 1 else int (length ?t))"
    unfolding const_length_def Let_def cond unfolding strlen_at_const_text by (rule refl)
  show ?thesis
  proof (cases "unicode_quoted ?t")
    case False
    then show ?thesis
      by (simp add: cl)
  next
    case True
    then have pos: "length ?t > 4" by (simp add: unicode_quoted_def)
    have "trim_loop buf loc (int (length ?t) - 1) + 1
        = int (length (dropWhile scanner_isspace (rev (take (nat (int (length ?t) - 1 + 1)) ?t))))"
      using pos by (intro trim_loop_spec [OF assms]) simp_all
    then have "trim_loop buf loc (int (length ?t) - 1) + 1
        = int (length ?t - trailing_spaces ?t)"
      by (simp add: length_dropWhile_rev trailing_spaces_def)
    then show ?thesis
      using True by (simp add: cl)
  qed
qed


lemma takeWhile_stops:
  assumes "i < length xs" "\<not> P (xs ! i)"
  shows "length (takeWhile P xs) \<le> i"
proof (rule ccontr)
  assume "\<not> length (takeWhile P xs) \<le> i"
  then have lt: "i < length (takeWhile P xs)" by simp
  then have "takeWhile P xs ! i \<in> set (takeWhile P xs)" by simp
  then have "P (takeWhile P xs ! i)" by (rule set_takeWhileD [THEN conjunct2])
  moreover have "takeWhile P xs ! i = xs ! i" using lt by (rule takeWhile_nth)
  ultimately show False using assms(2) by simp
qed

lemma unicode_quoted_trailing:
  assumes "unicode_quoted s"
  shows "trailing_spaces s + 3 \<le> length s"
proof -
  from assms have len: "4 < length s" and q: "s ! 2 = CHR 0x27"
    by (simp_all add: unicode_quoted_def)
  have "rev s ! (length s - 3) = s ! 2"
    using len by (simp add: rev_nth)
  then have "\<not> scanner_isspace (rev s ! (length s - 3))"
    using q by (simp add: scanner_isspace_def)
  moreover have "length s - 3 < length (rev s)" using len by simp
  ultimately have "length (takeWhile scanner_isspace (rev s)) \<le> length s - 3"
    by (intro takeWhile_stops)
  then show ?thesis using len by (simp add: trailing_spaces_def)
qed

lemma takeWhile_dropWhile_Nil: "takeWhile P (dropWhile P xs) = []"
  by (induction xs) simp_all

lemma trailing_spaces_trimmed:
  "trailing_spaces (take (length s - trailing_spaces s) s) = 0"
proof -
  have "trailing_spaces s \<le> length s"
    using length_takeWhile_le [of scanner_isspace "rev s"] by (simp add: trailing_spaces_def)
  then have "rev (take (length s - trailing_spaces s) s) = drop (trailing_spaces s) (rev s)"
    by (simp add: rev_take)
  also have "\<dots> = dropWhile scanner_isspace (rev s)"
    by (simp add: trailing_spaces_def dropWhile_eq_drop)
  finally have "takeWhile scanner_isspace (rev (take (length s - trailing_spaces s) s)) = []"
    by (simp only: takeWhile_dropWhile_Nil)
  then show ?thesis by (simp add: trailing_spaces_def)
qed

text \<open>
  Claim C9. The length computed for the constant at a location is measured on the text
  from that location to the zero byte of the current token. When that text is longer
  than four bytes and starts with \<open>u\<close> or \<open>U\<close>, an ampersand and a single quote, all
  the whitespace at its end is taken off: the stored length is positive and the text it
  covers ends in no whitespace. In every other case the stored length is the distance
  to the zero byte, unchanged.
\<close>

theorem const_length_trims_unicode_quoted:
  assumes "0 \<le> loc"
  shows "strlen_at buf loc = int (length (const_text buf loc))
       \<and> (unicode_quoted (const_text buf loc) \<longrightarrow>
            const_length buf loc = strlen_at buf loc - int (trailing_spaces (const_text buf loc))
          \<and> 0 < const_length buf loc
          \<and> trailing_spaces (take (nat (const_length buf loc)) (const_text buf loc)) = 0)
       \<and> (\<not> unicode_quoted (const_text buf loc) \<longrightarrow> const_length buf loc = strlen_at buf loc)"
proof -
  let ?t = "const_text buf loc"
  have s: "strlen_at buf loc = int (length ?t)" by (rule strlen_at_const_text)
  have n: "const_length buf loc = strlen_at buf loc" if "\<not> unicode_quoted ?t"
    using that const_length_spec [OF assms, of buf] s by simp
  have u: "const_length buf loc = strlen_at buf loc - int (trailing_spaces ?t)
      \<and> 0 < const_length buf loc
      \<and> trailing_spaces (take (nat (const_length buf loc)) ?t) = 0" if uq: "unicode_quoted ?t"
  proof -
    have le: "trailing_spaces ?t + 3 \<le> length ?t"
      using uq by (rule unicode_quoted_trailing)
    have c: "const_length buf loc = int (length ?t - trailing_spaces ?t)"
      using uq const_length_spec [OF assms, of buf] by simp
    then have "nat (const_length buf loc) = length ?t - trailing_spaces ?t" by simp
    then show ?thesis
      using c le s by (simp add: trailing_spaces_trimmed of_nat_diff)
  qed
  show ?thesis using s n u by blast
qed

theorem const_length_trims_unicode_quoted_witness:
  "(0::int) \<le> 7
   \<and> unicode_quoted (const_text (example_uescape_buf) 7)
   \<and> strlen_at example_uescape_buf 7 = 8
   \<and> const_length example_uescape_buf 7 = 5
   \<and> \<not> unicode_quoted (const_text example_uescape_buf 0)
   \<and> const_length example_uescape_buf 0 = 15"
proof -
  have t7: "const_text example_uescape_buf 7 = ''U&'' @ [CHR 0x27] @ ''a'' @ [CHR 0x27] @ ''   ''"
    by (simp add: example_uescape_buf_def const_text_def)
  have t0: "const_text example_uescape_buf 0 = ''SELECT U&'' @ [CHR 0x27] @ ''a'' @ [CHR 0x27] @ ''   ''"
    by (simp add: example_uescape_buf_def const_text_def)
  have u7: "unicode_quoted (const_text example_uescape_buf 7)"
    by (simp add: t7 unicode_quoted_def)
  have u0: "\<not> unicode_quoted (const_text example_uescape_buf 0)"
    by (simp add: t0 unicode_quoted_def)
  have sp: "trailing_spaces (const_text example_uescape_buf 7) = 3"
    by (simp add: t7 trailing_spaces_def scanner_isspace_def)
  show ?thesis
    using const_length_trims_unicode_quoted [of 7 example_uescape_buf]
      const_length_trims_unicode_quoted [of 0 example_uescape_buf] u7 u0 sp
    by (simp add: t7 t0)
qed

section \<open>The resolver and the scanner\<close>

declare lex_loop.simps [simp del]

lemma core_yylex_source: "source (snd (snd (core_yylex sc))) = source sc"
  by (simp add: core_yylex_def split: list.splits)

lemma core_yylex_token:
  "pending sc = t # ts \<Longrightarrow>
     core_yylex sc = (tok_code t, tok_loc t, sc\<lparr>pending := ts, scanbuf := token_buf (source sc) t\<rparr>)"
  by (simp add: core_yylex_def token_buf_def)

lemma core_yylex_end: "pending sc = [] \<Longrightarrow> fst (core_yylex sc) = 0"
  by (simp add: core_yylex_def)

lemma takeWhile_update_take:
  assumes "k < length ys" "\<forall>i<k. P (ys ! i)" "\<not> P v"
  shows "takeWhile P (ys[k := v]) = take k ys"
proof -
  have "takeWhile P (ys[k := v]) = take k (ys[k := v])"
  proof (rule takeWhile_eq_take_P_nth)
    fix i assume "i < k" "i < length (ys[k := v])"
    then show "P (ys[k := v] ! i)" using assms(2) by simp
  next
    assume "k < length (ys[k := v])"
    then show "\<not> P (ys[k := v] ! k)" using assms(1,3) by simp
  qed
  then show ?thesis by simp
qed

lemma const_text_token_buf:
  assumes "NUL \<notin> set query" "0 \<le> loc" "nat loc \<le> tok_end t" "tok_end t \<le> length query"
  shows "const_text (token_buf query t) loc = take (tok_end t - nat loc) (drop (nat loc) query)"
proof -
  define l where "l = nat loc"
  define k where "k = tok_end t - l"
  define ys where "ys = drop l (query @ [NUL, NUL])"
  have lk: "l + k \<le> length query" "tok_end t = l + k"
    using assms(3,4) by (simp_all add: l_def k_def)
  have ys: "ys = drop l query @ [NUL, NUL]"
    using lk by (simp add: ys_def)
  have d: "drop l (token_buf query t) = ys[k := NUL]"
    using lk by (simp add: token_buf_def drop_update_swap ys_def)
  have klt: "k < length ys" using lk by (simp add: ys)
  have nn: "ys ! i \<noteq> NUL" if "i < k" for i
  proof -
    have lt: "i < length (drop l query)" using that lk by simp
    then have "ys ! i = drop l query ! i" by (simp only: ys nth_append if_True)
    moreover have "drop l query ! i \<in> set (drop l query)" using lt by (rule nth_mem)
    then have "drop l query ! i \<in> set query" by (rule in_set_dropD)
    ultimately show ?thesis using assms(1) by metis
  qed
  have "takeWhile (\<lambda>c. c \<noteq> NUL) (ys[k := NUL]) = take k ys"
    using klt nn by (intro takeWhile_update_take) simp_all
  also have "\<dots> = take k (drop l query)"
    using lk by (simp add: ys)
  finally show ?thesis by (simp add: const_text_def d [unfolded l_def] k_def l_def)
qed

lemma const_length_nonneg: "0 \<le> loc \<Longrightarrow> 0 \<le> const_length buf loc"
  using const_length_spec [of loc buf] by (simp split: if_splits)

lemma const_length_token_buf:
  assumes "NUL \<notin> set query" "0 \<le> loc" "nat loc < tok_end t" "tok_end t \<le> length query"
  shows "0 < const_length (token_buf query t) loc"
    and "loc + const_length (token_buf query t) loc \<le> int (tok_end t)"
    and "\<not> unicode_quoted (const_text (token_buf query t) loc) \<Longrightarrow>
           loc + const_length (token_buf query t) loc = int (tok_end t)"
proof -
  let ?b = "token_buf query t"
  have ct: "const_text ?b loc = take (tok_end t - nat loc) (drop (nat loc) query)"
    using assms by (intro const_text_token_buf) simp_all
  from ct have len: "length (const_text ?b loc) = tok_end t - nat loc"
    using assms(3,4) by simp
  have il: "int (tok_end t - nat loc) = int (tok_end t) - loc" and pos: "0 < int (tok_end t) - loc"
    using assms(2,3) by linarith+
  have cl: "const_length ?b loc =
      (if unicode_quoted (const_text ?b loc)
       then int (tok_end t - nat loc - trailing_spaces (const_text ?b loc))
       else int (tok_end t) - loc)"
    using const_length_spec [OF assms(2), of ?b] by (simp only: len il)
  show "0 < const_length ?b loc"
  proof (cases "unicode_quoted (const_text ?b loc)")
    case True
    have "trailing_spaces (const_text ?b loc) + 3 \<le> tok_end t - nat loc"
      using unicode_quoted_trailing [OF True] len by simp
    then have "0 < tok_end t - nat loc - trailing_spaces (const_text ?b loc)"
      by arith
    moreover have "const_length ?b loc = int (tok_end t - nat loc - trailing_spaces (const_text ?b loc))"
      using cl True by (simp only: if_True)
    ultimately show ?thesis by (simp only: of_nat_0_less_iff)
  next
    case False
    then show ?thesis
      using cl pos by simp
  qed
  show "loc + const_length ?b loc \<le> int (tok_end t)"
  proof (cases "unicode_quoted (const_text ?b loc)")
    case True
    have "const_length ?b loc = int (tok_end t - nat loc - trailing_spaces (const_text ?b loc))"
      using cl True by (simp only: if_True)
    moreover have "int (tok_end t - nat loc - trailing_spaces (const_text ?b loc)) \<le> int (tok_end t - nat loc)"
      by (simp only: of_nat_le_iff diff_le_self)
    ultimately show ?thesis using il by linarith
  next
    case False
    then show ?thesis using cl by simp
  qed
  show "loc + const_length ?b loc = int (tok_end t)" if "\<not> unicode_quoted (const_text ?b loc)"
    using that cl by simp
qed

lemma tokens_from_weaken: "tokens_from p n ts \<Longrightarrow> p' \<le> p \<Longrightarrow> tokens_from p' n ts"
  by (cases ts) simp_all

lemma lex_loop_source: "source (snd (lex_loop query loc sc)) = source sc"
proof (induction query loc sc rule: lex_loop.induct)
  case (1 query loc sc)
  show ?case
  proof (cases "pending sc")
    case Nil
    then show ?thesis
      by (simp add: lex_loop.simps [of query loc sc] core_yylex_def)
  next
    case (Cons t ts)
    note c1 = core_yylex_token [OF Cons]
    show ?thesis
    proof (cases "tok_code t = 0 \<or> loc \<le> tok_loc t")
      case True
      then show ?thesis
        using c1 by (auto simp: lex_loop.simps [of query loc sc] core_yylex_def split: list.splits)
    next
      case False
      then show ?thesis
        using c1 "1.IH" [OF c1 [symmetric] refl] by (simp add: lex_loop.simps [of query loc sc])
    qed
  qed
qed

lemma lex_loop_contract:
  assumes "source sc = query" "tokens_from p (length query) (pending sc)"
    "0 \<le> loc" "lex_loop query loc sc = (Some len, sc1)"
  shows "\<exists>t. t \<in> set (pending sc) \<and> tok_code t \<noteq> 0 \<and> len = const_length (token_buf query t) loc
           \<and> tokens_from (tok_end t) (length query) (pending sc1)
           \<and> set (pending sc1) \<subseteq> set (pending sc)
           \<and> p \<le> tok_end t \<and> nat loc < tok_end t \<and> tok_end t \<le> length query"
  using assms
proof (induction query loc sc arbitrary: p rule: lex_loop.induct)
  case (1 query loc sc)
  show ?case
  proof (cases "pending sc")
    case Nil
    then show ?thesis
      using "1.prems"(4) by (simp add: lex_loop.simps [of query loc sc] core_yylex_def)
  next
    case (Cons t ts)
    note c1 = core_yylex_token [OF Cons]
    from "1.prems"(2) Cons have t: "int p \<le> tok_loc t" "nat (tok_loc t) < tok_end t"
      "tok_end t \<le> length query" and ts: "tokens_from (tok_end t) (length query) ts"
      by simp_all
    have pe: "p \<le> tok_end t" using t by linarith
    show ?thesis
    proof (cases "tok_code t = 0")
      case True
      then show ?thesis
        using "1.prems"(4) c1 by (simp add: lex_loop.simps [of query loc sc])
    next
      case nz: False
      show ?thesis
      proof (cases "loc \<le> tok_loc t")
        case False
        let ?sc1 = "sc\<lparr>pending := ts, scanbuf := token_buf (source sc) t\<rparr>"
        have "lex_loop query loc ?sc1 = (Some len, sc1)"
          using "1.prems"(4) c1 nz False by (simp add: lex_loop.simps [of query loc sc])
        moreover have "source ?sc1 = query" "tokens_from (tok_end t) (length query) (pending ?sc1)"
          using "1.prems"(1) ts by simp_all
        ultimately obtain u where "u \<in> set (pending ?sc1)" "tok_code u \<noteq> 0"
          "len = const_length (token_buf query u) loc"
          "tokens_from (tok_end u) (length query) (pending sc1)"
          "set (pending sc1) \<subseteq> set (pending ?sc1)"
          "tok_end t \<le> tok_end u" "nat loc < tok_end u" "tok_end u \<le> length query"
          using "1.IH" [OF c1 [symmetric] refl _ _ _ _ "1.prems"(3)] nz False by blast
        then show ?thesis using pe Cons by (intro exI [of _ u]) auto
      next
        case reach: True
        have le: "nat loc < tok_end t" using reach t "1.prems"(3) by linarith
        show ?thesis
        proof (cases "byte_at query loc = CHR ''-''")
          case False
          then have "len = const_length (token_buf query t) loc" and "pending sc1 = ts"
            using "1.prems"(1,4) c1 nz reach by (auto simp: lex_loop.simps [of query loc sc])
          then show ?thesis
            using ts pe le t(3) nz Cons
            by (intro exI [of _ t]) auto
        next
          case minus: True
          show ?thesis
          proof (cases ts)
            case Nil
            then show ?thesis
              using "1.prems"(4) c1 nz reach minus
              by (simp add: lex_loop.simps [of query loc sc] core_yylex_def)
          next
            case ts_eq: (Cons t2 ts2)
            let ?sc1 = "sc\<lparr>pending := ts, scanbuf := token_buf (source sc) t\<rparr>"
            have c2: "core_yylex ?sc1 = (tok_code t2, tok_loc t2,
                ?sc1\<lparr>pending := ts2, scanbuf := token_buf (source ?sc1) t2\<rparr>)"
              using ts_eq by (intro core_yylex_token) simp
            from ts ts_eq have t2: "int (tok_end t) \<le> tok_loc t2" "nat (tok_loc t2) < tok_end t2"
              "tok_end t2 \<le> length query" and ts2: "tokens_from (tok_end t2) (length query) ts2"
              by simp_all
            have nz2: "tok_code t2 \<noteq> 0"
              using "1.prems"(4) c1 c2 nz reach minus
              by (auto simp: lex_loop.simps [of query loc sc])
            have "len = const_length (token_buf query t2) loc" and "pending sc1 = ts2"
              using "1.prems"(1,4) c1 c2 nz reach minus nz2
              by (auto simp: lex_loop.simps [of query loc sc])
            moreover have le2: "nat loc < tok_end t2" using le t2 by linarith
            moreover have "p \<le> tok_end t2" using pe t2 by linarith
            ultimately show ?thesis
              using ts2 t2(3) nz2 Cons ts_eq
              by (intro exI [of _ t2]) auto
          qed
        qed
      qed
    qed
  qed
qed

text \<open>How the resolver may change a record: not at all, or by storing the measured length.\<close>

lemma fill_loop_contract:
  assumes "source sc = query" "NUL \<notin> set query" "tokens_from p (length query) (pending sc)"
    "\<forall>r \<in> set rs. 0 \<le> location r"
  shows "\<exists>rs'. fill_loop query last_loc sc rs = Inr rs'
           \<and> list_all2 (\<lambda>r r'. r' = r \<or> resolved_by query (pending sc) r r') rs rs'"
  using assms
proof (induction rs arbitrary: last_loc sc p)
  case Nil
  then show ?case by simp
next
  case (Cons r rs)
  let ?loc = "location r"
  have nonneg: "0 \<le> ?loc" and rest: "\<forall>r \<in> set rs. 0 \<le> location r"
    using Cons.prems(4) by simp_all
  show ?case
  proof (cases "?loc \<le> last_loc")
    case True
    obtain rs' where "fill_loop query last_loc sc rs = Inr rs'"
      "list_all2 (\<lambda>r r'. r' = r \<or> resolved_by query (pending sc) r r') rs rs'"
      using Cons.IH [OF Cons.prems(1,2,3) rest] by blast
    then show ?thesis using True nonneg by (simp add: Let_def)
  next
    case False
    obtain x sc1 where lx: "lex_loop query ?loc sc = (x, sc1)" by (cases "lex_loop query ?loc sc")
    show ?thesis
    proof (cases x)
      case None
      have "list_all2 (\<lambda>r r'. r' = r \<or> resolved_by query (pending sc) r r') (r # rs) (r # rs)"
        by (simp add: list_all2_same)
      then show ?thesis using False nonneg lx None by (simp add: Let_def)
    next
      case (Some len)
      obtain t where t: "t \<in> set (pending sc)" "tok_code t \<noteq> 0"
        "len = const_length (token_buf query t) ?loc"
        "tokens_from (tok_end t) (length query) (pending sc1)"
        "set (pending sc1) \<subseteq> set (pending sc)"
        "nat ?loc < tok_end t" "tok_end t \<le> length query"
        using lex_loop_contract [OF Cons.prems(1,3) nonneg lx [unfolded Some]] by blast
      have src: "source sc1 = query"
        using lex_loop_source [of query ?loc sc] lx Cons.prems(1) by simp
      obtain rs' where f: "fill_loop query ?loc sc1 rs = Inr rs'"
        and l: "list_all2 (\<lambda>r r'. r' = r \<or> resolved_by query (pending sc1) r r') rs rs'"
        using Cons.IH [OF src Cons.prems(2) t(4) rest] by blast
      have mono: "resolved_by query (pending sc) a b" if "resolved_by query (pending sc1) a b" for a b
        using that t(5) by (auto simp: resolved_by_def)
      have l': "list_all2 (\<lambda>r r'. r' = r \<or> resolved_by query (pending sc) r r') rs rs'"
        using l by (rule list_all2_mono) (use mono in blast)
      have "resolved_by query (pending sc) r (r\<lparr>length' := len\<rparr>)"
        using t const_length_token_buf(1,2) [OF Cons.prems(2) nonneg t(6,7)]
        by (auto simp: resolved_by_def)
      then show ?thesis using False nonneg lx Some f l' by (simp add: Let_def)
    qed
  qed
qed


text \<open>The records the outer loop runs over: the valid entries, sorted by location.\<close>

lemma sorted_entries_set:
  "set (sorted_entries jstate) = set (valid_entries jstate)"
  by (simp add: sorted_entries_def)

lemma sorted_entries_length:
  "length (sorted_entries jstate) = length (valid_entries jstate)"
  by (simp add: sorted_entries_def)

lemma sort_key_short: "length xs \<le> 1 \<Longrightarrow> sort_key f xs = xs"
  by (cases xs) simp_all

lemma fill_in_unfold:
  "pgnq_fill_in_constant_lengths jstate query toks =
     (case fill_loop query (- 1) (scanner_init query toks) (sorted_entries jstate) of
        Inl e \<Rightarrow> Inl e
      | Inr locs' \<Rightarrow> Inr (jstate\<lparr>clocations := locs' @ drop (nat (clocations_count jstate)) (clocations jstate)\<rparr>))"
proof -
  have "sort_key location (take (nat (clocations_count jstate)) (clocations jstate))
      = take (nat (clocations_count jstate)) (clocations jstate)" if "\<not> 1 < clocations_count jstate"
    using that by (intro sort_key_short) simp
  then show ?thesis
    by (simp add: pgnq_fill_in_constant_lengths_def sorted_entries_def valid_entries_def Let_def)
qed

lemma fill_in_valid_entries:
  assumes "jstate_inv jstate" "fill_loop query (- 1) (scanner_init query toks) (sorted_entries jstate) = Inr locs'"
    "length locs' = length (sorted_entries jstate)"
  shows "pgnq_fill_in_constant_lengths jstate query toks
           = Inr (jstate\<lparr>clocations := locs' @ drop (nat (clocations_count jstate)) (clocations jstate)\<rparr>)"
    and "valid_entries (jstate\<lparr>clocations := locs' @ drop (nat (clocations_count jstate)) (clocations jstate)\<rparr>) = locs'"
proof -
  show "pgnq_fill_in_constant_lengths jstate query toks
           = Inr (jstate\<lparr>clocations := locs' @ drop (nat (clocations_count jstate)) (clocations jstate)\<rparr>)"
    using assms(2) by (simp add: fill_in_unfold)
  have "length (valid_entries jstate) = nat (clocations_count jstate)"
    using assms(1) by (auto simp: valid_entries_def jstate_inv_def)
  then have "length locs' = nat (clocations_count jstate)"
    using assms(3) by (simp add: sorted_entries_length)
  then show "valid_entries (jstate\<lparr>clocations := locs' @ drop (nat (clocations_count jstate)) (clocations jstate)\<rparr>) = locs'"
    by (simp add: valid_entries_def)
qed

text \<open>
  Claim C2. When the scanner keeps its contract and the records are as the walker
  leaves them (locations not negative, lengths -1), the resolver returns, and every
  record then has either the length -1 or a strictly positive length: the one computed
  at its location while a token of the scanner was the current one, which ends inside
  the text. No record ends with the length 0 or any other value.
\<close>

theorem lengths_positive_or_ignored:
  assumes "scanner_contract query toks" "jstate_inv jstate"
    "\<forall>r \<in> set (valid_entries jstate). 0 \<le> location r \<and> length' r = - 1"
  shows "\<exists>jstate'. pgnq_fill_in_constant_lengths jstate query toks = Inr jstate'
           \<and> clocations_count jstate' = clocations_count jstate
           \<and> (\<forall>r \<in> set (valid_entries jstate').
                 length' r = - 1
               \<or> (0 < length' r \<and> location r + length' r \<le> int (length query)
                  \<and> (\<exists>t \<in> set toks. location r < int (tok_end t)
                        \<and> length' r = const_length (token_buf query t) (location r))))"
proof -
  let ?sc = "scanner_init query toks"
  let ?rs = "sorted_entries jstate"
  have src: "source ?sc = query" and pend: "pending ?sc = toks"
    by (simp_all add: scanner_init_def)
  have nn: "NUL \<notin> set query" and tf: "tokens_from 0 (length query) (pending ?sc)"
    using assms(1) by (simp_all add: scanner_contract_def pend)
  have locs: "\<forall>r \<in> set ?rs. 0 \<le> location r"
    using assms(3) by (simp add: sorted_entries_set)
  obtain rs' where f: "fill_loop query (- 1) ?sc ?rs = Inr rs'"
    and l: "list_all2 (\<lambda>r r'. r' = r \<or> resolved_by query toks r r') ?rs rs'"
    using fill_loop_contract [OF src nn tf locs, of "- 1"] pend by auto
  have len: "length rs' = length ?rs"
    using l by (simp add: list_all2_lengthD)
  let ?j = "jstate\<lparr>clocations := rs' @ drop (nat (clocations_count jstate)) (clocations jstate)\<rparr>"
  have res: "pgnq_fill_in_constant_lengths jstate query toks = Inr ?j" and ve: "valid_entries ?j = rs'"
    using fill_in_valid_entries [OF assms(2) f len] by simp_all
  have "length' r' = - 1
      \<or> (0 < length' r' \<and> location r' + length' r' \<le> int (length query)
         \<and> (\<exists>t \<in> set toks. location r' < int (tok_end t)
               \<and> length' r' = const_length (token_buf query t) (location r')))"
    if mem: "r' \<in> set rs'" for r'
  proof -
    obtain i where i: "i < length rs'" "rs' ! i = r'"
      using mem by (auto simp: in_set_conv_nth)
    define r where "r = ?rs ! i"
    have r: "r \<in> set ?rs" "r' = r \<or> resolved_by query toks r r'"
      using list_all2_nthD2 [OF l i(1)] i len by (simp_all add: r_def)
    show ?thesis
    proof (cases "r' = r")
      case True
      then show ?thesis using r(1) assms(3) by (simp add: sorted_entries_set)
    next
      case False
      with r(2) obtain t where t: "t \<in> set toks" "location r < int (tok_end t)"
        "tok_end t \<le> length query" "r' = r\<lparr>length' := const_length (token_buf query t) (location r)\<rparr>"
        "0 < length' r'" "location r + length' r' \<le> int (tok_end t)"
        by (auto simp: resolved_by_def)
      have "location r' = location r" "length' r' = const_length (token_buf query t) (location r')"
        using t(4) by simp_all
      moreover have "location r' + length' r' \<le> int (length query)"
        using t(3,4,6) by simp
      ultimately show ?thesis using t(1,2,5) by (intro disjI2 conjI bexI [of _ t]) simp_all
    qed
  qed
  then show ?thesis using res ve by auto
qed


lemma initial_valid_entries:
  "valid_entries (record_all initial_jstate locs) = map new_entry (filter (\<lambda>l. 0 \<le> l) locs)"
  using record_all_valid_entries [OF jstate_inv_initial, of locs]
  by (simp add: valid_entries_def initial_jstate_def)

lemmas resolver_eval = lex_loop.simps core_yylex_def scanner_init_def const_length_def strlen_at_def
  byte_at_def trim_loop.simps scanner_isspace_def Let_def new_entry_def

theorem lengths_positive_or_ignored_witness:
  "scanner_contract example_query example_tokens
   \<and> jstate_inv (record_all initial_jstate [10, 7, 13])
   \<and> valid_entries (record_all initial_jstate [10, 7, 13]) = [new_entry 10, new_entry 7, new_entry 13]
   \<and> (\<exists>jstate'. pgnq_fill_in_constant_lengths (record_all initial_jstate [10, 7, 13])
                    example_query example_tokens = Inr jstate'
          \<and> valid_entries jstate' = [\<lparr>location = 7, length' = 1\<rparr>, \<lparr>location = 10, length' = 1\<rparr>,
                                      \<lparr>location = 13, length' = - 1\<rparr>])"
proof -
  let ?j = "record_all initial_jstate [10, 7, 13]"
  have c: "scanner_contract example_query example_tokens"
    by (simp add: scanner_contract_def example_query_def example_tokens_def)
  have i: "jstate_inv ?j"
    by (rule record_all_inv [OF jstate_inv_initial])
  have v: "valid_entries ?j = [new_entry 10, new_entry 7, new_entry 13]"
    by (simp add: initial_valid_entries)
  have h: "\<forall>r \<in> set (valid_entries ?j). 0 \<le> location r \<and> length' r = - 1"
    by (simp add: v new_entry_def)
  have f: "fill_loop example_query (- 1) (scanner_init example_query example_tokens) (sorted_entries ?j)
      = Inr [\<lparr>location = 7, length' = 1\<rparr>, \<lparr>location = 10, length' = 1\<rparr>, \<lparr>location = 13, length' = - 1\<rparr>]"
    by (simp add: sorted_entries_def v example_query_def example_tokens_def resolver_eval)
  obtain jstate' where r: "pgnq_fill_in_constant_lengths ?j example_query example_tokens = Inr jstate'"
    using lengths_positive_or_ignored [OF c i h] by blast
  have "valid_entries jstate' = [\<lparr>location = 7, length' = 1\<rparr>, \<lparr>location = 10, length' = 1\<rparr>,
      \<lparr>location = 13, length' = - 1\<rparr>]"
    using r fill_in_valid_entries [OF i f] by (simp add: sorted_entries_length v)
  then show ?thesis using c i v r by blast
qed

section \<open>The loop of the builder\<close>

lemma build_loop_Cons:
  "build_loop h query query_loc i st (r # rs) =
     (if length' r < 0 then build_loop h query query_loc (i + 1) st rs
      else case emit_param h query query_loc i st r of
             Inl e \<Rightarrow> Inl e
           | Inr st' \<Rightarrow> build_loop h query query_loc (i + 1) st' rs)"
  by (simp add: emit_param_def Let_def split: sum.splits)

declare build_loop.simps(2) [simp del]

lemma build_loop_skips:
  "\<forall>d \<in> set ds. length' d < 0 \<Longrightarrow>
     build_loop h query query_loc i st (ds @ rs) = build_loop h query query_loc (i + int (length ds)) st rs"
proof (induction ds arbitrary: i)
  case Nil
  then show ?case by simp
next
  case (Cons d ds)
  then have "build_loop h query query_loc (i + 1) st (ds @ rs)
      = build_loop h query query_loc (i + 1 + int (length ds)) st rs"
    by simp
  then show ?case using Cons.prems by (simp add: build_loop_Cons algebra_simps)
qed

declare dec_digits.simps [simp del]

lemmas builder_eval = build_loop_Cons emit_param_def memcpy_src_def sprintf_param_def show_int_def
  int32_def dec_digits.simps build_start_def Let_def

section \<open>Duplicate locations\<close>

lemma fill_loop_duplicates:
  "\<forall>d \<in> set ds. 0 \<le> location d \<and> location d \<le> last_loc \<Longrightarrow>
     fill_loop query last_loc sc (ds @ rs) = (case fill_loop query last_loc sc rs of Inl e \<Rightarrow> Inl e | Inr rs' \<Rightarrow> Inr (ds @ rs'))"
proof (induction ds)
  case Nil
  show ?case by (cases "fill_loop query last_loc sc rs") simp_all
next
  case (Cons d ds)
  have ih: "fill_loop query last_loc sc (ds @ rs) = (case fill_loop query last_loc sc rs of Inl e \<Rightarrow> Inl e | Inr rs' \<Rightarrow> Inr (ds @ rs'))"
    using Cons by simp
  show ?case
  proof (cases "fill_loop query last_loc sc rs")
    case (Inl e)
    then show ?thesis using Cons.prems ih by (simp add: Let_def)
  next
    case (Inr rs')
    then show ?thesis using Cons.prems ih by (simp add: Let_def)
  qed
qed

lemma lex_loop_nonneg:
  assumes "0 \<le> loc" "lex_loop query loc sc = (Some len, sc1)"
  shows "0 \<le> len"
  using assms
proof (induction query loc sc rule: lex_loop.induct)
  case (1 query loc sc)
  obtain tok yylloc s1 where c1: "core_yylex sc = (tok, yylloc, s1)" by (cases "core_yylex sc")
  obtain tok2 yylloc2 s2 where c2: "core_yylex s1 = (tok2, yylloc2, s2)" by (cases "core_yylex s1")
  show ?case
  proof (cases "tok \<noteq> 0 \<and> \<not> loc \<le> yylloc")
    case True
    then have "lex_loop query loc s1 = (Some len, sc1)"
      using "1.prems"(2) c1 by (simp add: lex_loop.simps [of query loc sc])
    then show ?thesis
      using "1.IH" [OF c1 [symmetric] refl _ _ "1.prems"(1)] True by simp
  next
    case False
    then have "len = const_length (scanbuf s1) loc \<or> len = const_length (scanbuf s2) loc"
      using "1.prems"(2) c1 c2 by (auto simp: lex_loop.simps [of query loc sc] split: if_splits)
    then show ?thesis using const_length_nonneg [OF "1.prems"(1)] by auto
  qed
qed

text \<open>
  Claim C3. Take a record whose location the scanner reaches, followed in the sorted
  array by records with the same location (and length -1, as they are stored). The
  resolver stores the length in the first record only: the later ones are left as
  they are, and the records after them are resolved from the very state in which the
  scanner was left by the first record, so no token is consumed for a duplicate. The
  builder then writes the parameter symbol for the first record and passes over the
  duplicates: one symbol at that position, not two.
\<close>

theorem duplicate_locations_resolved_once:
  assumes "0 \<le> location r" "last_loc < location r"
    and "lex_loop query (location r) sc = (Some len, sc1)"
    and "\<forall>d \<in> set ds. location d = location r \<and> length' d = - 1"
  shows "fill_loop query last_loc sc (r # ds @ rs)
           = (case fill_loop query (location r) sc1 rs of
                Inl e \<Rightarrow> Inl e
              | Inr rs' \<Rightarrow> Inr (r\<lparr>length' := len\<rparr> # ds @ rs'))
       \<and> build_loop h query query_loc i st (r\<lparr>length' := len\<rparr> # ds @ rs')
           = (case emit_param h query query_loc i st (r\<lparr>length' := len\<rparr>) of
                Inl e \<Rightarrow> Inl e
              | Inr st1 \<Rightarrow> build_loop h query query_loc (i + 1 + int (length ds)) st1 rs')"
proof -
  have d1: "\<forall>d \<in> set ds. 0 \<le> location d \<and> location d \<le> location r"
    using assms(1,4) by simp
  have "fill_loop query (location r) sc1 (ds @ rs)
      = (case fill_loop query (location r) sc1 rs of Inl e \<Rightarrow> Inl e | Inr rs' \<Rightarrow> Inr (ds @ rs'))"
    using d1 by (rule fill_loop_duplicates)
  then have a: "fill_loop query last_loc sc (r # ds @ rs)
      = (case fill_loop query (location r) sc1 rs of
                Inl e \<Rightarrow> Inl e
              | Inr rs' \<Rightarrow> Inr (r\<lparr>length' := len\<rparr> # ds @ rs'))"
    using assms(1,2,3) by (cases "fill_loop query (location r) sc1 rs") (simp_all add: Let_def)
  have d2: "\<forall>d \<in> set ds. length' d < 0"
    using assms(4) by simp
  have len: "0 \<le> len"
    using assms(1,3) by (rule lex_loop_nonneg)
  have b: "build_loop h query query_loc i st (r\<lparr>length' := len\<rparr> # ds @ rs')
      = (case emit_param h query query_loc i st (r\<lparr>length' := len\<rparr>) of
           Inl e \<Rightarrow> Inl e
         | Inr st1 \<Rightarrow> build_loop h query query_loc (i + 1 + int (length ds)) st1 rs')"
    using len by (simp add: build_loop_Cons build_loop_skips [OF d2] split: sum.splits)
  show ?thesis using a b by (rule conjI)
qed


theorem duplicate_locations_resolved_once_witness:
  "(0::int) \<le> location (new_entry 7) \<and> (- 1::int) < location (new_entry 7)
   \<and> lex_loop example_dup_query (location (new_entry 7)) (scanner_init example_dup_query example_dup_tokens)
       = (Some 1, example_dup_scanner)
   \<and> fill_loop example_dup_query (- 1) (scanner_init example_dup_query example_dup_tokens)
         [new_entry 7, new_entry 7, new_entry 10]
       = Inr [\<lparr>location = 7, length' = 1\<rparr>, \<lparr>location = 7, length' = - 1\<rparr>, \<lparr>location = 10, length' = 1\<rparr>]
   \<and> build_loop 0 example_dup_query 0 0 build_start
         [\<lparr>location = 7, length' = 1\<rparr>, \<lparr>location = 7, length' = - 1\<rparr>, \<lparr>location = 10, length' = 1\<rparr>]
       = Inr \<lparr>quer_loc = 11, n_quer_loc = 13, last_off = 10, last_tok_len = 1,
              norm_query = ''SELECT $1, $3''\<rparr>"
proof -
  let ?r = "new_entry 7"
  let ?sc = "scanner_init example_dup_query example_dup_tokens"
  have a: "0 \<le> location ?r" and b: "- 1 < location ?r"
    by (simp_all add: new_entry_def)
  have l: "lex_loop example_dup_query (location ?r) ?sc = (Some 1, example_dup_scanner)"
    by (simp add: example_dup_query_def example_dup_tokens_def example_dup_scanner_def token_buf_def
        resolver_eval)
  have d: "\<forall>d \<in> set [new_entry 7]. location d = location ?r \<and> length' d = - 1"
    by (simp add: new_entry_def)
  have f: "fill_loop example_dup_query 7 example_dup_scanner [new_entry 10]
      = Inr [\<lparr>location = 10, length' = 1\<rparr>]"
    by (simp add: example_dup_query_def example_dup_scanner_def token_buf_def resolver_eval)
  have e: "emit_param 0 example_dup_query 0 0 build_start \<lparr>location = 7, length' = 1\<rparr>
      = Inr \<lparr>quer_loc = 8, n_quer_loc = 9, last_off = 7, last_tok_len = 1, norm_query = ''SELECT $1''\<rparr>"
    by (simp add: example_dup_query_def builder_eval)
  have g: "build_loop 0 example_dup_query 0 2
        \<lparr>quer_loc = 8, n_quer_loc = 9, last_off = 7, last_tok_len = 1, norm_query = ''SELECT $1''\<rparr>
        [\<lparr>location = 10, length' = 1\<rparr>]
      = Inr \<lparr>quer_loc = 11, n_quer_loc = 13, last_off = 10, last_tok_len = 1,
             norm_query = ''SELECT $1, $3''\<rparr>"
    by (simp add: example_dup_query_def builder_eval)
  show ?thesis
    using duplicate_locations_resolved_once [OF a b l d, where rs = "[new_entry 10]" and h = 0
        and query_loc = 0 and i = 0 and st = build_start and rs' = "[\<lparr>location = 10, length' = 1\<rparr>]"]
      a b l f e g
    by (simp add: new_entry_def)
qed

section \<open>The text the builder writes\<close>

lemma dec_digits_length: "0 < k \<Longrightarrow> n < 10 ^ k \<Longrightarrow> length (dec_digits n) \<le> k"
proof (induction k arbitrary: n)
  case 0
  then show ?case by simp
next
  case (Suc k)
  show ?case
  proof (cases "n < 10")
    case True
    then show ?thesis by (simp add: dec_digits.simps [of n])
  next
    case False
    then have k: "0 < k" using Suc.prems(2) by (cases k) simp_all
    have "n div 10 < 10 ^ k" using Suc.prems(2) by (simp add: less_mult_imp_div_less mult.commute)
    then have "length (dec_digits (n div 10)) \<le> k" using Suc.IH k by simp
    then show ?thesis using False by (simp add: dec_digits.simps [of n])
  qed
qed

lemma sprintf_param_length:
  assumes "0 \<le> n" "n \<le> 2147483647"
  shows "length (sprintf_param n) \<le> 11"
proof -
  have "nat n < 10 ^ 10" using assms by simp
  then have "length (dec_digits (nat n)) \<le> 10" by (intro dec_digits_length) simp_all
  then show ?thesis using assms(1) by (simp add: sprintf_param_def show_int_def)
qed

lemma int32_id: "- 2147483648 \<le> x \<Longrightarrow> x \<le> 2147483647 \<Longrightarrow> int32 x = x"
  by (simp add: int32_def)

lemma memcpy_src_inside:
  assumes "0 \<le> pos" "0 \<le> len" "pos + len \<le> int (length query)"
  shows "memcpy_src query pos len = Inr (take (nat len) (drop (nat pos) query))"
  using assms by (simp add: memcpy_src_def)

lemma emit_param_Inr:
  assumes "emit_param h query 0 i st r = Inr st1"
  shows "quer_loc st1 = location r + length' r" "last_off st1 = location r" "last_tok_len st1 = length' r"
    "last_off st + last_tok_len st \<le> location r"
  using assms by (auto simp: emit_param_def Let_def split: if_splits sum.splits)

lemma emit_param_value:
  assumes "quer_loc st = last_off st + last_tok_len st" "0 \<le> quer_loc st"
    "quer_loc st \<le> location r" "location r \<le> int (length query)"
    "- 2147483648 \<le> i + 1 + h" "i + 1 + h \<le> 2147483647"
  shows "emit_param h query 0 i st r =
     Inr \<lparr>quer_loc = location r + length' r,
          n_quer_loc = n_quer_loc st + (location r - quer_loc st) + int (length (sprintf_param (i + 1 + h))),
          last_off = location r,
          last_tok_len = length' r,
          norm_query = norm_query st @ take (nat (location r - quer_loc st)) (drop (nat (quer_loc st)) query)
                       @ sprintf_param (i + 1 + h)\<rparr>"
proof -
  have d: "location r - 0 - last_off st - last_tok_len st = location r - quer_loc st"
    using assms(1) by simp
  have m: "memcpy_src query (quer_loc st) (location r - quer_loc st)
      = Inr (take (nat (location r - quer_loc st)) (drop (nat (quer_loc st)) query))"
    using assms(2,3,4) by (intro memcpy_src_inside) simp_all
  have p: "int32 (i + 1 + h) = i + 1 + h"
    using assms(5,6) by (rule int32_id)
  have "\<not> location r - quer_loc st < 0" using assms(3) by simp
  then show ?thesis
    unfolding emit_param_def Let_def d p by (simp only: m if_False sum.case diff_zero)
qed

lemma build_loop_monotone:
  assumes "build_loop h query 0 i st rs = Inr st'" "quer_loc st = last_off st + last_tok_len st"
  shows "quer_loc st \<le> quer_loc st' \<and> quer_loc st' = last_off st' + last_tok_len st'"
  using assms
proof (induction rs arbitrary: i st)
  case Nil
  then show ?case by simp
next
  case (Cons r rs)
  show ?case
  proof (cases "length' r < 0")
    case True
    then have b: "build_loop h query 0 (i + 1) st rs = Inr st'"
      using Cons.prems(1) by (simp add: build_loop_Cons)
    show ?thesis by (rule Cons.IH [OF b Cons.prems(2)])
  next
    case False
    then obtain st1 where e: "emit_param h query 0 i st r = Inr st1"
      and b: "build_loop h query 0 (i + 1) st1 rs = Inr st'"
      using Cons.prems(1) by (auto simp: build_loop_Cons split: sum.splits)
    have "quer_loc st1 = last_off st1 + last_tok_len st1"
      using emit_param_Inr(1,2,3) [OF e] by simp
    then have "quer_loc st1 \<le> quer_loc st' \<and> quer_loc st' = last_off st' + last_tok_len st'"
      using Cons.IH [OF b] by simp
    moreover have "quer_loc st \<le> quer_loc st1"
      using emit_param_Inr(1,4) [OF e] Cons.prems(2) False by simp
    ultimately show ?thesis by simp
  qed
qed

lemma build_loop_text:
  assumes "build_loop h query 0 i st rs = Inr st'"
    and "quer_loc st = last_off st + last_tok_len st" "0 \<le> quer_loc st"
    and "quer_loc st' \<le> n" "n \<le> int (length query)"
    and "0 \<le> i + 1 + h" "i + int (length rs) + h \<le> 2147483647"
    and "n_quer_loc st = int (length (norm_query st))"
  shows "norm_query st' @ take (nat (n - quer_loc st')) (drop (nat (quer_loc st')) query)
           = norm_query st @ substituted h (take (nat n) query) i (quer_loc st) rs
       \<and> n_quer_loc st' = int (length (norm_query st'))"
  using assms
proof (induction rs arbitrary: i st)
  case Nil
  then have eq: "st' = st" by simp
  have "nat (n - quer_loc st) = nat n - nat (quer_loc st)"
    using Nil.prems(3) by linarith
  then show ?case using Nil.prems(8) by (simp add: eq drop_take)
next
  case (Cons r rs)
  show ?case
  proof (cases "length' r < 0")
    case True
    then have b: "build_loop h query 0 (i + 1) st rs = Inr st'"
      using Cons.prems(1) by (simp add: build_loop_Cons)
    have "0 \<le> i + 1 + 1 + h" "i + 1 + int (length rs) + h \<le> 2147483647"
      using Cons.prems(6,7) by simp_all
    then show ?thesis
      using Cons.IH [OF b Cons.prems(2,3,4,5) _ _ Cons.prems(8)] True by simp
  next
    case False
    then obtain st1 where e: "emit_param h query 0 i st r = Inr st1"
      and b: "build_loop h query 0 (i + 1) st1 rs = Inr st'"
      using Cons.prems(1) by (auto simp: build_loop_Cons split: sum.splits)
    note q1 = emit_param_Inr [OF e]
    have inv1: "quer_loc st1 = last_off st1 + last_tok_len st1" using q1 by simp
    have le1: "quer_loc st1 \<le> quer_loc st'"
      using build_loop_monotone [OF b inv1] by simp
    define len where "len = location r - quer_loc st"
    have len0: "0 \<le> len" using q1(4) Cons.prems(2) by (simp add: len_def)
    have inside: "quer_loc st + len \<le> n"
      using le1 Cons.prems(4) q1(1) False by (simp add: len_def)
    have "emit_param h query 0 i st r =
       Inr \<lparr>quer_loc = location r + length' r,
            n_quer_loc = n_quer_loc st + (location r - quer_loc st) + int (length (sprintf_param (i + 1 + h))),
            last_off = location r,
            last_tok_len = length' r,
            norm_query = norm_query st @ take (nat (location r - quer_loc st)) (drop (nat (quer_loc st)) query)
                         @ sprintf_param (i + 1 + h)\<rparr>"
      using Cons.prems(2,3,5,6,7) len0 inside by (intro emit_param_value) (simp_all add: len_def)
    with e have st1: "norm_query st1 = norm_query st @ take (nat len) (drop (nat (quer_loc st)) query)
          @ sprintf_param (i + 1 + h)"
      and n1: "n_quer_loc st1 = n_quer_loc st + len + int (length (sprintf_param (i + 1 + h)))"
      by (auto simp: len_def)
    have nq1: "n_quer_loc st1 = int (length (norm_query st1))"
    proof -
      have "nat (quer_loc st) + nat len \<le> length query"
        using inside Cons.prems(3,5) len0 by linarith
      then have "length (take (nat len) (drop (nat (quer_loc st)) query)) = nat len" by simp
      then show ?thesis using n1 st1 Cons.prems(8) len0 by simp
    qed
    have q1pos: "0 \<le> quer_loc st1" using q1(1) Cons.prems(3) len0 False by (simp add: len_def)
    have ih: "norm_query st' @ take (nat (n - quer_loc st')) (drop (nat (quer_loc st')) query)
           = norm_query st1 @ substituted h (take (nat n) query) (i + 1) (quer_loc st1) rs
       \<and> n_quer_loc st' = int (length (norm_query st'))"
      using Cons.IH [OF b inv1 q1pos Cons.prems(4,5) _ _ nq1] Cons.prems(6,7) by simp
    have chunk: "take (nat len) (drop (nat (quer_loc st)) query)
        = take (nat (location r - quer_loc st)) (drop (nat (quer_loc st)) (take (nat n) query))"
    proof -
      have "nat len \<le> nat n - nat (quer_loc st)" using inside len0 Cons.prems(3) by linarith
      then show ?thesis by (simp add: drop_take len_def min_def)
    qed
    show ?thesis
      using ih False by (simp add: st1 chunk q1(1))
  qed
qed


lemma fill_loop_length:
  "fill_loop query last_loc sc rs = Inr rs' \<Longrightarrow> map location rs' = map location rs"
proof (induction rs arbitrary: last_loc sc rs')
  case Nil
  then show ?case by simp
next
  case (Cons r rs)
  obtain x sc1 where lx: "lex_loop query (location r) sc = (x, sc1)"
    by (cases "lex_loop query (location r) sc")
  show ?case
  proof (cases "location r \<le> last_loc")
    case True
    then show ?thesis
      using Cons.prems Cons.IH [of last_loc sc]
      by (auto simp: Let_def split: if_splits sum.splits)
  next
    case False
    then show ?thesis
      using Cons.prems Cons.IH [of "location r" sc1] lx
      by (cases x) (auto simp: Let_def split: if_splits sum.splits)
  qed
qed

lemma jstate_inv_count:
  "jstate_inv jstate \<Longrightarrow> clocations_count jstate = int (length (valid_entries jstate))"
  by (auto simp: jstate_inv_def valid_entries_def)

lemma build_unfold:
  assumes "jstate_inv jstate0"
    and "fill_loop query (- 1) (scanner_init query toks) (sorted_entries jstate0) = Inr rs'"
  shows "pgnq_build_normalized_query jstate0 query query_loc query_len toks =
     (case build_loop (highest_extern_param_id jstate0) query query_loc 0 build_start rs' of
        Inl e \<Rightarrow> Inl e
      | Inr st \<Rightarrow> copy_rest query query_len (query_len + int (length rs') * 10) st)"
proof -
  have len: "length rs' = length (sorted_entries jstate0)"
    using fill_loop_length [OF assms(2)] by (metis length_map)
  let ?j = "jstate0\<lparr>clocations := rs' @ drop (nat (clocations_count jstate0)) (clocations jstate0)\<rparr>"
  note f = fill_in_valid_entries [OF assms(1,2) len]
  have c: "clocations_count ?j = int (length rs')"
    using jstate_inv_count [OF assms(1)] len by (simp add: sorted_entries_length)
  have v: "take (nat (clocations_count ?j)) (clocations ?j) = rs'"
    using f(2) by (simp add: valid_entries_def)
  have h: "highest_extern_param_id ?j = highest_extern_param_id jstate0" by simp
  have v': "take (length rs') (clocations ?j) = rs'"
    using v by (simp only: c nat_int)
  show ?thesis
    unfolding pgnq_build_normalized_query_def f(1) sum.case Let_def c h copy_rest_def nat_int v'
    by (rule refl)
qed

lemma walked_state:
  defines "J tree \<equiv> foldl visit_node initial_jstate (encountered tree)"
  shows "jstate_inv (J tree)"
    and "valid_entries (J tree) = map new_entry (filter (\<lambda>l. 0 \<le> l) (const_locations (encountered tree)))"
    and "highest_extern_param_id (J tree) = fold max (param_numbers (encountered tree)) 0"
proof -
  have "jstate_inv (foldl visit_node jstate ns)" if "jstate_inv jstate" for jstate ns
    using that by (induction ns arbitrary: jstate) (simp_all add: visit_node_inv)
  then show "jstate_inv (J tree)" unfolding J_def using jstate_inv_initial by blast
  have "valid_entries initial_jstate = []"
    by (simp add: valid_entries_def initial_jstate_def)
  then show "valid_entries (J tree) = map new_entry (filter (\<lambda>l. 0 \<le> l) (const_locations (encountered tree)))"
    unfolding J_def using foldl_visit_entries [OF jstate_inv_initial, of "encountered tree"] by simp
  show "highest_extern_param_id (J tree) = fold max (param_numbers (encountered tree)) 0"
    unfolding J_def by (simp add: foldl_visit_highest initial_jstate_def)
qed

lemma pg_normalize_unfold:
  assumes "nesting tree \<le> depth"
  shows "pg_normalize_query sql tree toks depth =
     (case pgnq_build_normalized_query (foldl visit_node initial_jstate (encountered tree))
             sql 0 (int (length sql)) toks of
        Inl e \<Rightarrow> Inl e
      | Inr (out, query_len) \<Rightarrow> Inr out)"
  by (simp add: pg_normalize_query_def walker_visits(1) [OF assms])

lemma numbered_by_position_text:
  assumes "jstate_inv jstate0"
    and "pgnq_fill_in_constant_lengths jstate0 query toks = Inr jstate"
    and "pgnq_build_normalized_query jstate0 query 0 query_len toks = Inr (out, n)"
    and "query_len \<le> int (length query)"
    and "0 \<le> highest_extern_param_id jstate0"
    and "clocations_count jstate0 + highest_extern_param_id jstate0 \<le> 2147483647"
  shows "out = substituted (highest_extern_param_id jstate0) (take (nat query_len) query) 0 0
                 (valid_entries jstate)
       \<and> n = int (length out)"
proof -
  let ?h = "highest_extern_param_id jstate0"
  obtain rs' where f: "fill_loop query (- 1) (scanner_init query toks) (sorted_entries jstate0) = Inr rs'"
    using assms(2) by (auto simp: fill_in_unfold split: sum.splits)
  have len: "length rs' = length (sorted_entries jstate0)"
    using fill_loop_length [OF f] by (metis length_map)
  have v: "valid_entries jstate = rs'"
    using fill_in_valid_entries [OF assms(1) f len] assms(2) by simp
  have cnt: "int (length rs') = clocations_count jstate0"
    using jstate_inv_count [OF assms(1)] len by (simp add: sorted_entries_length)
  obtain st where b: "build_loop ?h query 0 0 build_start rs' = Inr st"
    and c: "copy_rest query query_len (query_len + int (length rs') * 10) st = Inr (out, n)"
    using assms(3) by (auto simp: build_unfold [OF assms(1) f] split: sum.splits)
  have le: "quer_loc st \<le> query_len"
    using c by (auto simp: copy_rest_def Let_def split: if_splits)
  have q0: "0 \<le> quer_loc st"
    using build_loop_monotone [OF b] by (simp add: build_start_def)
  have t: "norm_query st @ take (nat (query_len - quer_loc st)) (drop (nat (quer_loc st)) query)
        = norm_query build_start @ substituted ?h (take (nat query_len) query) 0 (quer_loc build_start) rs'
      \<and> n_quer_loc st = int (length (norm_query st))"
    using assms(5,6) cnt
    by (intro build_loop_text [OF b _ _ le assms(4)]) (simp_all add: build_start_def)
  have m: "memcpy_src query (quer_loc st) (query_len - quer_loc st)
      = Inr (take (nat (query_len - quer_loc st)) (drop (nat (quer_loc st)) query))"
    using q0 le assms(4) by (intro memcpy_src_inside) simp_all
  have o: "out = norm_query st @ take (nat (query_len - quer_loc st)) (drop (nat (quer_loc st)) query)"
    and n: "n = n_quer_loc st + (query_len - quer_loc st)"
    using c m by (auto simp: copy_rest_def Let_def split: if_splits)
  have "nat (quer_loc st) + nat (query_len - quer_loc st) \<le> length query"
    using q0 le assms(4) by linarith
  then have tl: "length (take (nat (query_len - quer_loc st)) (drop (nat (quer_loc st)) query))
      = nat (query_len - quer_loc st)"
    by simp
  have "length out = length (norm_query st) + nat (query_len - quer_loc st)"
    by (simp only: o length_append tl)
  moreover have "n_quer_loc st = int (length (norm_query st))"
    using t by (rule conjunct2)
  ultimately have "n = int (length out)"
    using n le by simp
  moreover have "out = substituted ?h (take (nat query_len) query) 0 0 rs'"
    using o t by (simp add: build_start_def)
  ultimately show ?thesis using v by simp
qed


text \<open>
  Claim C1, as amended. When the builder returns for a full statement, its result is
  the text in which every record with a non-negative length is replaced by the dollar
  sign and the decimal number \<open>i + 1 + highest_extern_param_id\<close>, where \<open>i\<close> is the
  index of the record in the sorted array, skipped records counted (the number is
  taken to fit an \<open>int\<close>); the length returned is the length of that text. So the
  numbers start after the highest parameter number when the first record is
  substituted, they ascend with the offsets, and every skipped record before a
  constant leaves a gap of one. A statement with \<open>$3\<close> and one constant gets \<open>$4\<close>.
\<close>

theorem numbered_by_position_in_array:
  assumes "jstate_inv jstate0"
    and "pgnq_fill_in_constant_lengths jstate0 query toks = Inr jstate"
    and "pgnq_build_normalized_query jstate0 query 0 query_len toks = Inr (out, n)"
    and "query_len \<le> int (length query)"
    and "0 \<le> highest_extern_param_id jstate0"
    and "clocations_count jstate0 + highest_extern_param_id jstate0 \<le> 2147483647"
  shows "out = substituted (highest_extern_param_id jstate0) (take (nat query_len) query) 0 0
                 (valid_entries jstate)
       \<and> n = int (length out)"
  using assms by (rule numbered_by_position_text)

theorem numbered_by_position_in_array_witness:
  "jstate_inv (foldl visit_node initial_jstate (encountered example_param_tree))
   \<and> highest_extern_param_id (foldl visit_node initial_jstate (encountered example_param_tree)) = 3
   \<and> clocations_count (foldl visit_node initial_jstate (encountered example_param_tree)) = 1
   \<and> pgnq_build_normalized_query (foldl visit_node initial_jstate (encountered example_param_tree))
         example_param_query 0 12 example_param_tokens = Inr (''SELECT $3, $4'', 13)
   \<and> substituted 3 (take 12 example_param_query) 0 0 [\<lparr>location = 11, length' = 1\<rparr>] = ''SELECT $3, $4''
   \<and> pg_normalize_query example_param_query example_param_tree example_param_tokens 2
         = Inr ''SELECT $3, $4''"
proof -
  let ?J = "foldl visit_node initial_jstate (encountered example_param_tree)"
  have i: "jstate_inv ?J" by (rule walked_state(1))
  have cl: "const_locations (encountered example_param_tree) = [11]"
    by (simp add: example_param_tree_def const_locations_def)
  have v: "valid_entries ?J = [new_entry 11]"
    unfolding walked_state(2) cl by simp
  have pn: "fold max (param_numbers (encountered example_param_tree)) 0 = 3"
    by (simp add: example_param_tree_def param_numbers_def)
  have h: "highest_extern_param_id ?J = 3"
    unfolding walked_state(3) pn by (rule refl)
  have c: "clocations_count ?J = 1"
    using jstate_inv_count [OF i] v by simp
  have f: "fill_loop example_param_query (- 1) (scanner_init example_param_query example_param_tokens)
        (sorted_entries ?J) = Inr [\<lparr>location = 11, length' = 1\<rparr>]"
    by (simp add: sorted_entries_def v example_param_query_def example_param_tokens_def resolver_eval)
  have r: "pgnq_fill_in_constant_lengths ?J example_param_query example_param_tokens
      = Inr (?J\<lparr>clocations := [\<lparr>location = 11, length' = 1\<rparr>] @ drop (nat (clocations_count ?J)) (clocations ?J)\<rparr>)"
    and v': "valid_entries (?J\<lparr>clocations := [\<lparr>location = 11, length' = 1\<rparr>]
        @ drop (nat (clocations_count ?J)) (clocations ?J)\<rparr>) = [\<lparr>location = 11, length' = 1\<rparr>]"
    using fill_in_valid_entries [OF i f] by (simp_all add: sorted_entries_length v)
  have b: "pgnq_build_normalized_query ?J example_param_query 0 12 example_param_tokens
      = Inr (''SELECT $3, $4'', 13)"
    unfolding build_unfold [OF i f] h
    by (simp add: copy_rest_def example_param_query_def builder_eval)
  have n: "nesting example_param_tree \<le> 2"
    by (simp add: example_param_tree_def)
  have l: "int (length example_param_query) = 12"
    by (simp add: example_param_query_def)
  have p: "pg_normalize_query example_param_query example_param_tree example_param_tokens 2
      = Inr ''SELECT $3, $4''"
    by (simp add: pg_normalize_unfold [OF n] l b)
  have a4: "12 \<le> int (length example_param_query)" using l by simp
  have a5: "0 \<le> highest_extern_param_id ?J" using h by simp
  have a6: "clocations_count ?J + highest_extern_param_id ?J \<le> 2147483647" using h c by simp
  have "''SELECT $3, $4'' = substituted (highest_extern_param_id ?J) (take (nat 12) example_param_query) 0 0
      (valid_entries (?J\<lparr>clocations := [\<lparr>location = 11, length' = 1\<rparr>]
        @ drop (nat (clocations_count ?J)) (clocations ?J)\<rparr>))"
    using numbered_by_position_in_array [OF i r b a4 a5 a6] by (rule conjunct1)
  then have s: "substituted 3 (take 12 example_param_query) 0 0 [\<lparr>location = 11, length' = 1\<rparr>]
      = ''SELECT $3, $4''"
    unfolding h v' by (simp del: substituted.simps)
  show ?thesis using i h c b p s by (simp del: substituted.simps)
qed

text \<open>
  Claim C1 as stated fails: for a tree that refers to the first constant of
  \<open>SELECT 1, 2\<close> twice, the second constant is the second one substituted, and its
  symbol is \<open>$3\<close>, not \<open>$2\<close>.
\<close>

theorem numbering_gap_counterexample:
  "pg_normalize_query example_dup_query example_dup_tree example_dup_tokens 2 = Inr ''SELECT $1, $3''
   \<and> pg_normalize_query example_dup_query example_dup_tree example_dup_tokens 2 \<noteq> Inr ''SELECT $1, $2''"
proof -
  let ?J = "foldl visit_node initial_jstate (encountered example_dup_tree)"
  have i: "jstate_inv ?J" by (rule walked_state(1))
  have cl: "const_locations (encountered example_dup_tree) = [7, 7, 10]"
    by (simp add: example_dup_tree_def const_locations_def)
  have v: "valid_entries ?J = [new_entry 7, new_entry 7, new_entry 10]"
    unfolding walked_state(2) cl by simp
  have pn: "fold max (param_numbers (encountered example_dup_tree)) 0 = 0"
    by (simp add: example_dup_tree_def param_numbers_def)
  have h: "highest_extern_param_id ?J = 0"
    unfolding walked_state(3) pn by (rule refl)
  have f: "fill_loop example_dup_query (- 1) (scanner_init example_dup_query example_dup_tokens)
        (sorted_entries ?J)
      = Inr [\<lparr>location = 7, length' = 1\<rparr>, \<lparr>location = 7, length' = - 1\<rparr>, \<lparr>location = 10, length' = 1\<rparr>]"
    by (simp add: sorted_entries_def v example_dup_query_def example_dup_tokens_def resolver_eval)
  have b: "pgnq_build_normalized_query ?J example_dup_query 0 11 example_dup_tokens
      = Inr (''SELECT $1, $3'', 13)"
    unfolding build_unfold [OF i f] h
    by (simp add: copy_rest_def example_dup_query_def builder_eval)
  have n: "nesting example_dup_tree \<le> 2"
    by (simp add: example_dup_tree_def)
  have l: "int (length example_dup_query) = 11"
    by (simp add: example_dup_query_def)
  have "pg_normalize_query example_dup_query example_dup_tree example_dup_tokens 2 = Inr ''SELECT $1, $3''"
    by (simp add: pg_normalize_unfold [OF n] l b)
  then show ?thesis by simp
qed

text \<open>
  Claim C6 at \<open>SELECT $2147483647, 1\<close>. The highest parameter number is the largest
  \<open>int\<close>, so the number of the symbol for the constant wraps around to the smallest
  one; the symbol has twelve bytes, the text written has 32 bytes, the space allowed is
  31, and the check of the length before the terminator is written fails.
\<close>

theorem placeholder_overflow_exceeds_buffer:
  "fold max (param_numbers (encountered example_max_tree)) 0 = 2147483647
   \<and> build_loop 2147483647 example_max_query 0 0 build_start [\<lparr>location = 20, length' = 1\<rparr>]
       = Inr \<lparr>quer_loc = 21, n_quer_loc = 32, last_off = 20, last_tok_len = 1,
              norm_query = ''SELECT $2147483647, $-2147483648''\<rparr>
   \<and> int (length example_max_query) + 1 * 10 = 31
   \<and> pg_normalize_query example_max_query example_max_tree example_max_tokens 2
       = Inl (AssertFailed ''n_quer_loc <= norm_query_buflen'')"
proof -
  let ?J = "foldl visit_node initial_jstate (encountered example_max_tree)"
  have i: "jstate_inv ?J" by (rule walked_state(1))
  have cl: "const_locations (encountered example_max_tree) = [20]"
    by (simp add: example_max_tree_def const_locations_def)
  have v: "valid_entries ?J = [new_entry 20]"
    unfolding walked_state(2) cl by simp
  have m: "fold max (param_numbers (encountered example_max_tree)) 0 = 2147483647"
    by (simp add: example_max_tree_def param_numbers_def)
  have h: "highest_extern_param_id ?J = 2147483647"
    unfolding walked_state(3) m by (rule refl)
  have f: "fill_loop example_max_query (- 1) (scanner_init example_max_query example_max_tokens)
        (sorted_entries ?J) = Inr [\<lparr>location = 20, length' = 1\<rparr>]"
    by (simp add: sorted_entries_def v example_max_query_def example_max_tokens_def resolver_eval)
  have g: "build_loop 2147483647 example_max_query 0 0 build_start [\<lparr>location = 20, length' = 1\<rparr>]
       = Inr \<lparr>quer_loc = 21, n_quer_loc = 32, last_off = 20, last_tok_len = 1,
              norm_query = ''SELECT $2147483647, $-2147483648''\<rparr>"
    by (simp add: example_max_query_def builder_eval)
  have l: "int (length example_max_query) = 21"
    by (simp add: example_max_query_def)
  have b: "pgnq_build_normalized_query ?J example_max_query 0 21 example_max_tokens
      = Inl (AssertFailed ''n_quer_loc <= norm_query_buflen'')"
    unfolding build_unfold [OF i f] h g
    by (simp add: copy_rest_def memcpy_src_def example_max_query_def)
  have n: "nesting example_max_tree \<le> 2"
    by (simp add: example_max_tree_def)
  have "pg_normalize_query example_max_query example_max_tree example_max_tokens 2
      = Inl (AssertFailed ''n_quer_loc <= norm_query_buflen'')"
    by (simp add: pg_normalize_unfold [OF n] l b)
  then show ?thesis using m g l by simp
qed

section \<open>The whole call under the contracts of scanner and parser\<close>

lemma tokens_from_lower: "tokens_from p n ts \<Longrightarrow> u \<in> set ts \<Longrightarrow> int p \<le> tok_loc u"
proof (induction ts arbitrary: p)
  case Nil
  then show ?case by simp
next
  case (Cons t ts)
  show ?case
  proof (cases "u = t")
    case True
    then show ?thesis using Cons.prems(1) by simp
  next
    case False
    then have "int (tok_end t) \<le> tok_loc u" using Cons by simp
    moreover have "int p \<le> int (tok_end t)" using Cons.prems(1) by simp linarith
    ultimately show ?thesis by linarith
  qed
qed

lemma tokens_from_append:
  "tokens_from p n (ts1 @ t # ts2) \<Longrightarrow> (\<forall>u \<in> set ts1. tok_loc u < tok_loc t) \<and> tokens_from (nat (tok_loc t)) n (t # ts2)"
proof (induction ts1 arbitrary: p)
  case Nil
  then show ?case by simp
next
  case (Cons a ts1)
  then have tf: "tokens_from (tok_end a) n (ts1 @ t # ts2)" and a: "nat (tok_loc a) < tok_end a" by simp_all
  have "int (tok_end a) \<le> tok_loc t" using tokens_from_lower [OF tf, of t] by simp
  then have "tok_loc a < tok_loc t" using a by linarith
  then show ?case using Cons.IH [OF tf] by simp
qed

lemma minus_ok_tail: "minus_ok query locs (t # ts) \<Longrightarrow> minus_ok query locs ts"
  by (cases ts) simp_all

lemma minus_ok_suffix: "minus_ok query locs (ts1 @ ts2) \<Longrightarrow> minus_ok query locs ts2"
  by (induction ts1) (auto dest: minus_ok_tail)

lemma minus_ok_subset:
  "minus_ok query locs ts \<Longrightarrow> set locs' \<subseteq> set locs \<Longrightarrow> minus_ok query locs' ts"
  by (induction query locs ts rule: minus_ok.induct) auto

lemma minus_ok_at:
  "minus_ok query locs (ts1 @ t # t2 # ts3) \<Longrightarrow> tok_loc t \<in> set locs \<Longrightarrow>
     byte_at query (tok_loc t) = CHR ''-'' \<Longrightarrow> tok_loc t2 \<notin> set locs"
  using minus_ok_suffix [of query locs ts1 "t # t2 # ts3"] by simp

text \<open>Where the inner loop stops when the location is the start of a token.\<close>

lemma lex_loop_exact:
  assumes "source sc = query" "tokens_from p n (pending sc)" "t0 \<in> set (pending sc)" "tok_loc t0 = loc"
    "lex_loop query loc sc = (Some len, sc1)"
  shows "\<exists>ts1 ts2. pending sc = ts1 @ t0 # ts2
           \<and> (byte_at query loc \<noteq> CHR ''-'' \<longrightarrow> pending sc1 = ts2)
           \<and> (byte_at query loc = CHR ''-'' \<longrightarrow> (\<exists>t2. ts2 = t2 # pending sc1))"
  using assms
proof (induction query loc sc arbitrary: p rule: lex_loop.induct)
  case (1 query loc sc)
  obtain t ts where Cons: "pending sc = t # ts"
    using "1.prems"(3) by (cases "pending sc") simp_all
  note c1 = core_yylex_token [OF Cons]
  have nz: "tok_code t \<noteq> 0"
    using "1.prems"(5) c1 by (auto simp: lex_loop.simps [of query loc sc])
  from "1.prems"(2) Cons have t: "nat (tok_loc t) < tok_end t"
    and ts: "tokens_from (tok_end t) n ts" by simp_all
  let ?sc1 = "sc\<lparr>pending := ts, scanbuf := token_buf (source sc) t\<rparr>"
  show ?case
  proof (cases "loc \<le> tok_loc t")
    case reach: True
    have "t0 = t"
    proof (rule ccontr)
      assume "t0 \<noteq> t"
      then have "t0 \<in> set ts" using "1.prems"(3) Cons by simp
      then have "int (tok_end t) \<le> tok_loc t0" using ts by (rule tokens_from_lower [rotated])
      then show False using t reach "1.prems"(4) by linarith
    qed
    show ?thesis
    proof (cases "byte_at query loc = CHR ''-''")
      case False
      then have "pending sc1 = ts"
        using "1.prems"(5) c1 nz reach by (auto simp: lex_loop.simps [of query loc sc])
      then show ?thesis using Cons False \<open>t0 = t\<close> by (intro exI [of _ "[]"] exI [of _ ts]) simp
    next
      case minus: True
      obtain t2 ts2 where ts_eq: "ts = t2 # ts2"
        using "1.prems"(5) c1 nz reach minus
        by (cases ts) (auto simp: lex_loop.simps [of query loc sc] core_yylex_def)
      have c2: "core_yylex ?sc1 = (tok_code t2, tok_loc t2,
          ?sc1\<lparr>pending := ts2, scanbuf := token_buf (source ?sc1) t2\<rparr>)"
        using ts_eq by (intro core_yylex_token) simp
      have "pending sc1 = ts2"
        using "1.prems"(5) c1 c2 nz reach minus
        by (auto simp: lex_loop.simps [of query loc sc] split: if_splits)
      then show ?thesis using Cons minus ts_eq \<open>t0 = t\<close>
        by (intro exI [of _ "[]"] exI [of _ ts]) simp
    qed
  next
    case False
    then have ne: "t0 \<noteq> t" using "1.prems"(4) by auto
    then have mem: "t0 \<in> set (pending ?sc1)" using "1.prems"(3) Cons by simp
    have l: "lex_loop query loc ?sc1 = (Some len, sc1)"
      using "1.prems"(5) c1 nz False by (simp add: lex_loop.simps [of query loc sc])
    have src: "source ?sc1 = query" using "1.prems"(1) by simp
    have tf: "tokens_from (tok_end t) n (pending ?sc1)" using ts by simp
    obtain ts1 ts2 where "pending ?sc1 = ts1 @ t0 # ts2"
      "byte_at query loc \<noteq> CHR ''-'' \<longrightarrow> pending sc1 = ts2"
      "byte_at query loc = CHR ''-'' \<longrightarrow> (\<exists>t2. ts2 = t2 # pending sc1)"
      using "1.IH" [OF c1 [symmetric] refl _ _ src tf mem "1.prems"(4) l] nz False by blast
    then show ?thesis using Cons by (intro exI [of _ "t # ts1"] exI [of _ ts2]) simp
  qed
qed

text \<open>The scanner runs out when every token starts before the location.\<close>

lemma lex_loop_runs_out:
  assumes "\<forall>t \<in> set (pending sc). tok_loc t < loc"
  shows "fst (lex_loop query loc sc) = None"
  using assms
proof (induction query loc sc rule: lex_loop.induct)
  case (1 query loc sc)
  show ?case
  proof (cases "pending sc")
    case Nil
    then show ?thesis by (simp add: lex_loop.simps [of query loc sc] core_yylex_def)
  next
    case (Cons t ts)
    note c1 = core_yylex_token [OF Cons]
    have lt: "\<not> loc \<le> tok_loc t" using "1.prems" Cons by auto
    show ?thesis
    proof (cases "tok_code t = 0")
      case True
      then show ?thesis using c1 by (simp add: lex_loop.simps [of query loc sc])
    next
      case False
      have "fst (lex_loop query loc (sc\<lparr>pending := ts, scanbuf := token_buf (source sc) t\<rparr>)) = None"
        using "1.IH" [OF c1 [symmetric] refl] False lt "1.prems" Cons by simp
      then show ?thesis using c1 False lt by (simp add: lex_loop.simps [of query loc sc])
    qed
  qed
qed


lemma spans_from_weaken: "spans_from e n rs \<Longrightarrow> e' \<le> e \<Longrightarrow> spans_from e' n rs"
  by (induction rs arbitrary: e e') auto

lemma spans_from_skipped: "\<forall>r \<in> set rs. length' r < 0 \<Longrightarrow> spans_from e n rs"
  by (induction rs) auto

lemma fill_loop_aligned:
  assumes "source sc = query" "NUL \<notin> set query" "tokens_from p (length query) (pending sc)"
    and "\<forall>r \<in> set rs. 0 \<le> location r \<and> length' r = - 1"
    and "\<forall>r \<in> set rs. last_loc < location r \<longrightarrow> located (pending sc) (location r)"
    and "minus_ok query (map location rs) (pending sc)"
  shows "\<exists>rs'. fill_loop query last_loc sc rs = Inr rs'
           \<and> spans_from (int p) (int (length query)) rs'
           \<and> (\<forall>r' \<in> set rs'. (\<forall>t \<in> set (pending sc). tok_loc t < location r') \<longrightarrow> length' r' = - 1)"
  using assms
proof (induction rs arbitrary: last_loc sc p)
  case Nil
  then show ?case by simp
next
  case (Cons r rs)
  let ?loc = "location r" and ?n = "int (length query)"
  have nonneg: "0 \<le> ?loc" and unres: "length' r = - 1"
    and rest: "\<forall>r \<in> set rs. 0 \<le> location r \<and> length' r = - 1"
    using Cons.prems(4) by simp_all
  have sub: "set (map location rs) \<subseteq> set (map location (r # rs))" by auto
  show ?case
  proof (cases "?loc \<le> last_loc")
    case True
    have "minus_ok query (map location rs) (pending sc)"
      using Cons.prems(6) sub by (rule minus_ok_subset)
    then obtain rs' where f: "fill_loop query last_loc sc rs = Inr rs'"
      and sp: "spans_from (int p) ?n rs'"
      and un: "\<forall>r' \<in> set rs'. (\<forall>t \<in> set (pending sc). tok_loc t < location r') \<longrightarrow> length' r' = - 1"
      using Cons.IH [OF Cons.prems(1,2,3) rest, of last_loc] Cons.prems(5) by auto
    have "fill_loop query last_loc sc (r # rs) = Inr (r # rs')"
      using True nonneg f by (simp add: Let_def)
    then show ?thesis using sp un unres by simp
  next
    case False
    obtain x sc1 where lx: "lex_loop query ?loc sc = (x, sc1)" by (cases "lex_loop query ?loc sc")
    show ?thesis
    proof (cases x)
      case None
      have "fill_loop query last_loc sc (r # rs) = Inr (r # rs)"
        using False nonneg lx None by (simp add: Let_def)
      moreover have "spans_from (int p) ?n (r # rs)"
        using Cons.prems(4) by (intro spans_from_skipped) simp
      ultimately show ?thesis using Cons.prems(4) by simp
    next
      case (Some len)
      note lx = lx [unfolded Some]
      have loc_r: "located (pending sc) ?loc" using Cons.prems(5) False by simp
      have "\<not> (\<forall>t \<in> set (pending sc). tok_loc t < ?loc)"
        using lex_loop_runs_out [of sc ?loc query] lx by auto
      then obtain t0 where t0: "t0 \<in> set (pending sc)" "tok_loc t0 = ?loc"
        using loc_r by (auto simp: located_def)
      obtain t where t: "t \<in> set (pending sc)" "len = const_length (token_buf query t) ?loc"
        "tokens_from (tok_end t) (length query) (pending sc1)"
        "set (pending sc1) \<subseteq> set (pending sc)"
        "nat ?loc < tok_end t" "tok_end t \<le> length query"
        using lex_loop_contract [OF Cons.prems(1,3) nonneg lx] by blast
      have len: "0 < len" "?loc + len \<le> int (tok_end t)"
        using const_length_token_buf(1,2) [OF Cons.prems(2) nonneg t(5,6)] t(2) by simp_all
      have p_le: "int p \<le> ?loc"
        using tokens_from_lower [OF Cons.prems(3) t0(1)] t0(2) by simp
      obtain ts1 ts2 where ex: "pending sc = ts1 @ t0 # ts2"
        "byte_at query ?loc \<noteq> CHR ''-'' \<longrightarrow> pending sc1 = ts2"
        "byte_at query ?loc = CHR ''-'' \<longrightarrow> (\<exists>t2. ts2 = t2 # pending sc1)"
        using lex_loop_exact [OF Cons.prems(1,3) t0 lx] by blast
      have before: "\<forall>u \<in> set ts1. tok_loc u < ?loc"
        using tokens_from_append [of p "length query" ts1 t0 ts2] Cons.prems(3) ex(1) t0(2) by simp
      have src: "source sc1 = query"
        using lex_loop_source [of query ?loc sc] lx Cons.prems(1) by simp
      have loc': "\<forall>r' \<in> set rs. ?loc < location r' \<longrightarrow> located (pending sc1) (location r')"
      proof (intro ballI impI)
        fix r' assume r': "r' \<in> set rs" "?loc < location r'"
        then have "located (pending sc) (location r')" using Cons.prems(5) False by simp
        then consider t' where "t' \<in> set (pending sc)" "tok_loc t' = location r'"
          | "\<forall>t \<in> set (pending sc). tok_loc t < location r'"
          by (auto simp: located_def)
        then show "located (pending sc1) (location r')"
        proof cases
          case 1
          have "t' \<notin> set ts1" "t' \<noteq> t0" using before 1(2) r'(2) t0(2) by auto
          then have in2: "t' \<in> set ts2" using 1(1) ex(1) by simp
          have "t' \<in> set (pending sc1)"
          proof (cases "byte_at query ?loc = CHR ''-''")
            case False
            then show ?thesis using in2 ex(2) by simp
          next
            case True
            then obtain t2 where t2: "ts2 = t2 # pending sc1" using ex(3) by blast
            have "minus_ok query (map location (r # rs)) (ts1 @ t0 # t2 # pending sc1)"
              using Cons.prems(6) ex(1) t2 by simp
            then have "tok_loc t2 \<notin> set (map location (r # rs))"
              using True t0(2) by (intro minus_ok_at [of query _ ts1 t0 t2 "pending sc1"]) simp_all
            then have "t' \<noteq> t2" using 1(2) r'(1) by auto
            then show ?thesis using in2 t2 by simp
          qed
          then show ?thesis using 1(2) by (auto simp: located_def)
        next
          case 2
          then show ?thesis using t(4) by (auto simp: located_def)
        qed
      qed
      have "\<exists>pre. pending sc = pre @ pending sc1"
      proof (cases "byte_at query ?loc = CHR ''-''")
        case False
        then show ?thesis using ex(1,2) by (intro exI [of _ "ts1 @ [t0]"]) simp
      next
        case True
        then obtain t2 where "ts2 = t2 # pending sc1" using ex(3) by blast
        then show ?thesis using ex(1) by (intro exI [of _ "ts1 @ [t0, t2]"]) simp
      qed
      then have "minus_ok query (map location (r # rs)) (pending sc1)"
        using Cons.prems(6) minus_ok_suffix by metis
      then have mo: "minus_ok query (map location rs) (pending sc1)"
        using sub by (rule minus_ok_subset)
      obtain rs' where f: "fill_loop query ?loc sc1 rs = Inr rs'"
        and sp: "spans_from (int (tok_end t)) ?n rs'"
        and un: "\<forall>r' \<in> set rs'. (\<forall>t \<in> set (pending sc1). tok_loc t < location r') \<longrightarrow> length' r' = - 1"
        using Cons.IH [OF src Cons.prems(2) t(3) rest loc' mo] by auto
      have res: "fill_loop query last_loc sc (r # rs) = Inr (r\<lparr>length' := len\<rparr> # rs')"
        using False nonneg lx f by (simp add: Let_def)
      have "spans_from (?loc + len) ?n rs'"
        using sp len(2) by (rule spans_from_weaken)
      then have sp': "spans_from (int p) ?n (r\<lparr>length' := len\<rparr> # rs')"
        using len p_le t(6) by simp
      have un': "\<forall>r' \<in> set (r\<lparr>length' := len\<rparr> # rs').
          (\<forall>t \<in> set (pending sc). tok_loc t < location r') \<longrightarrow> length' r' = - 1"
        using un t(4) t0 by auto
      show ?thesis using res sp' un' by blast
    qed
  qed
qed


lemma build_loop_succeeds:
  assumes "spans_from (quer_loc st) n rs" "quer_loc st = last_off st + last_tok_len st"
    and "0 \<le> quer_loc st" "quer_loc st \<le> n" "n \<le> int (length query)"
    and "0 \<le> i + 1 + h" "i + int (length rs) + h \<le> 2147483647"
  shows "\<exists>st'. build_loop h query 0 i st rs = Inr st' \<and> quer_loc st' \<le> n
           \<and> n_quer_loc st' + (n - quer_loc st')
               \<le> n_quer_loc st + (n - quer_loc st) + 10 * int (length rs)"
  using assms
proof (induction rs arbitrary: i st)
  case Nil
  then show ?case by simp
next
  case (Cons r rs)
  have i1: "0 \<le> i + 1 + 1 + h" "i + 1 + int (length rs) + h \<le> 2147483647"
    using Cons.prems(6,7) by simp_all
  show ?case
  proof (cases "length' r < 0")
    case True
    then have sp: "spans_from (quer_loc st) n rs" using Cons.prems(1) by simp
    obtain st' where "build_loop h query 0 (i + 1) st rs = Inr st'" "quer_loc st' \<le> n"
      "n_quer_loc st' + (n - quer_loc st') \<le> n_quer_loc st + (n - quer_loc st) + 10 * int (length rs)"
      using Cons.IH [OF sp Cons.prems(2,3,4,5) i1] by blast
    then show ?thesis using True by (intro exI [of _ st']) (simp add: build_loop_Cons)
  next
    case False
    let ?loc = "location r" and ?len = "length' r"
    let ?param = "sprintf_param (i + 1 + h)"
    from Cons.prems(1) False have sp: "quer_loc st \<le> ?loc" "0 < ?len" "?loc + ?len \<le> n"
      "spans_from (?loc + ?len) n rs" by simp_all
    let ?st1 = "\<lparr>quer_loc = ?loc + ?len,
          n_quer_loc = n_quer_loc st + (?loc - quer_loc st) + int (length ?param),
          last_off = ?loc, last_tok_len = ?len,
          norm_query = norm_query st @ take (nat (?loc - quer_loc st)) (drop (nat (quer_loc st)) query)
                       @ ?param\<rparr>"
    have e: "emit_param h query 0 i st r = Inr ?st1"
      using Cons.prems(2,3,5,6,7) sp by (intro emit_param_value) simp_all
    have pl: "int (length ?param) \<le> 11"
      using sprintf_param_length [of "i + 1 + h"] Cons.prems(6,7) by simp
    have "spans_from (quer_loc ?st1) n rs" "quer_loc ?st1 = last_off ?st1 + last_tok_len ?st1"
      "0 \<le> quer_loc ?st1" "quer_loc ?st1 \<le> n"
      using sp Cons.prems(3) by simp_all
    then obtain st' where b: "build_loop h query 0 (i + 1) ?st1 rs = Inr st'" "quer_loc st' \<le> n"
      "n_quer_loc st' + (n - quer_loc st') \<le> n_quer_loc ?st1 + (n - quer_loc ?st1) + 10 * int (length rs)"
      using Cons.IH [of ?st1 "i + 1", OF _ _ _ _ Cons.prems(5) i1] by blast
    have "n_quer_loc ?st1 + (n - quer_loc ?st1) \<le> n_quer_loc st + (n - quer_loc st) + 10"
      using pl sp(2) by simp
    then have "n_quer_loc st' + (n - quer_loc st')
        \<le> n_quer_loc st + (n - quer_loc st) + 10 * int (length (r # rs))"
      using b(3) by simp
    moreover have "build_loop h query 0 i st (r # rs) = Inr st'"
      using False e b(1) by (simp add: build_loop_Cons)
    ultimately show ?thesis using b(2) by blast
  qed
qed

lemma substituted_unresolved_tail:
  "\<forall>u \<in> set us. length' u < 0 \<Longrightarrow> substituted h text i pos (rs @ us) = substituted h text i pos rs"
proof (induction rs arbitrary: i pos)
  case Nil
  then show ?case by (induction us arbitrary: i) simp_all
next
  case (Cons r rs)
  then show ?case by simp
qed

text \<open>
  The builder on the records the resolver returns, when those that are not skipped lie
  one after the other in the text and the numbers of the symbols fit an \<open>int\<close>.
\<close>

lemma build_total:
  assumes "jstate_inv jstate0"
    and "fill_loop query (- 1) (scanner_init query toks) (sorted_entries jstate0) = Inr rs'"
    and "spans_from 0 (int (length query)) rs'"
    and "0 \<le> highest_extern_param_id jstate0"
    and "clocations_count jstate0 + highest_extern_param_id jstate0 \<le> 2147483647"
  shows "\<exists>out. pgnq_build_normalized_query jstate0 query 0 (int (length query)) toks
                 = Inr (out, int (length out))
           \<and> out = substituted (highest_extern_param_id jstate0) query 0 0 rs'
           \<and> int (length out) \<le> int (length query) + clocations_count jstate0 * 10"
proof -
  let ?h = "highest_extern_param_id jstate0" and ?n = "int (length query)"
  note f = assms(2) and sp = assms(3)
  have len: "length rs' = length (sorted_entries jstate0)"
    using fill_loop_length [OF f] by (metis length_map)
  let ?j = "jstate0\<lparr>clocations := rs' @ drop (nat (clocations_count jstate0)) (clocations jstate0)\<rparr>"
  have res: "pgnq_fill_in_constant_lengths jstate0 query toks = Inr ?j" and ve: "valid_entries ?j = rs'"
    using fill_in_valid_entries [OF assms(1) f len] by simp_all
  have cnt: "int (length rs') = clocations_count jstate0"
    using jstate_inv_count [OF assms(1)] len by (simp add: sorted_entries_length)
  have "\<exists>st. build_loop ?h query 0 0 build_start rs' = Inr st \<and> quer_loc st \<le> ?n
      \<and> n_quer_loc st + (?n - quer_loc st)
          \<le> n_quer_loc build_start + (?n - quer_loc build_start) + 10 * int (length rs')"
    using sp assms(4,5) cnt by (intro build_loop_succeeds) (simp_all add: build_start_def)
  then obtain st where b: "build_loop ?h query 0 0 build_start rs' = Inr st"
    and le: "quer_loc st \<le> ?n"
    and bound: "n_quer_loc st + (?n - quer_loc st) \<le> ?n + 10 * int (length rs')"
    by (auto simp: build_start_def)
  have q0: "0 \<le> quer_loc st"
    using build_loop_monotone [OF b] by (simp add: build_start_def)
  have m: "memcpy_src query (quer_loc st) (?n - quer_loc st)
      = Inr (take (nat (?n - quer_loc st)) (drop (nat (quer_loc st)) query))"
    using q0 le by (intro memcpy_src_inside) simp_all
  let ?out = "norm_query st @ take (nat (?n - quer_loc st)) (drop (nat (quer_loc st)) query)"
  have c: "copy_rest query ?n (?n + int (length rs') * 10) st = Inr (?out, n_quer_loc st + (?n - quer_loc st))"
    using le bound m by (simp add: copy_rest_def Let_def)
  have bq: "pgnq_build_normalized_query jstate0 query 0 ?n toks
      = Inr (?out, n_quer_loc st + (?n - quer_loc st))"
    using b c by (simp add: build_unfold [OF assms(1) f])
  have ch: "?out = substituted ?h (take (nat ?n) query) 0 0 (valid_entries ?j)
      \<and> n_quer_loc st + (?n - quer_loc st) = int (length ?out)"
    using assms(4,5) by (intro numbered_by_position_text [OF assms(1) res bq]) simp_all
  have tq: "take (nat ?n) query = query" by simp
  have o: "?out = substituted ?h query 0 0 rs'"
    using ch unfolding tq ve by (rule conjunct1)
  have n: "n_quer_loc st + (?n - quer_loc st) = int (length ?out)"
    using ch by (rule conjunct2)
  have bd: "int (length ?out) \<le> ?n + clocations_count jstate0 * 10"
    using bound unfolding n cnt by simp
  have bq': "pgnq_build_normalized_query jstate0 query 0 ?n toks = Inr (?out, int (length ?out))"
    using bq unfolding n .
  show ?thesis
    using bq' o bd by (intro exI [of _ ?out] conjI)
qed

text \<open>
  The whole call on a full statement, when the scanner and the parser keep their
  contracts and the numbers of the symbols fit an \<open>int\<close>: both loops run to their end,
  no assertion fails, and the length of the result is within the space allowed.
\<close>

lemma normalization_total:
  assumes "scanner_contract query toks"
    and "parser_contract query toks (map location (valid_entries jstate0))"
    and "jstate_inv jstate0"
    and "\<forall>r \<in> set (valid_entries jstate0). length' r = - 1"
    and "0 \<le> highest_extern_param_id jstate0"
    and "clocations_count jstate0 + highest_extern_param_id jstate0 \<le> 2147483647"
  shows "\<exists>jstate out. pgnq_fill_in_constant_lengths jstate0 query toks = Inr jstate
           \<and> (\<forall>r \<in> set (valid_entries jstate). (\<forall>t \<in> set toks. tok_loc t < location r) \<longrightarrow> length' r = - 1)
           \<and> pgnq_build_normalized_query jstate0 query 0 (int (length query)) toks
               = Inr (out, int (length out))
           \<and> out = substituted (highest_extern_param_id jstate0) query 0 0 (valid_entries jstate)
           \<and> int (length out) \<le> int (length query) + clocations_count jstate0 * 10"
proof -
  let ?sc = "scanner_init query toks" and ?rs = "sorted_entries jstate0"
  let ?h = "highest_extern_param_id jstate0" and ?n = "int (length query)"
  have src: "source ?sc = query" and pend: "pending ?sc = toks"
    by (simp_all add: scanner_init_def)
  have nn: "NUL \<notin> set query" and tf: "tokens_from 0 (length query) (pending ?sc)"
    using assms(1) by (simp_all add: scanner_contract_def pend)
  have recs: "\<forall>r \<in> set ?rs. 0 \<le> location r \<and> length' r = - 1"
    using assms(2,4) by (simp add: sorted_entries_set parser_contract_def)
  have loc: "\<forall>r \<in> set ?rs. - 1 < location r \<longrightarrow> located (pending ?sc) (location r)"
    using assms(2) by (simp add: sorted_entries_set parser_contract_def pend)
  have ss: "set (map location ?rs) \<subseteq> set (map location (valid_entries jstate0))"
    by (simp add: sorted_entries_set)
  have "minus_ok query (map location (valid_entries jstate0)) (pending ?sc)"
    using assms(2) by (simp add: parser_contract_def pend)
  then have mo: "minus_ok query (map location ?rs) (pending ?sc)"
    using ss by (rule minus_ok_subset)
  obtain rs' where f: "fill_loop query (- 1) ?sc ?rs = Inr rs'"
    and sp: "spans_from 0 ?n rs'"
    and un: "\<forall>r' \<in> set rs'. (\<forall>t \<in> set toks. tok_loc t < location r') \<longrightarrow> length' r' = - 1"
    using fill_loop_aligned [OF src nn tf recs loc mo] pend by auto
  have len: "length rs' = length ?rs"
    using fill_loop_length [OF f] by (metis length_map)
  let ?j = "jstate0\<lparr>clocations := rs' @ drop (nat (clocations_count jstate0)) (clocations jstate0)\<rparr>"
  have res: "pgnq_fill_in_constant_lengths jstate0 query toks = Inr ?j" and ve: "valid_entries ?j = rs'"
    using fill_in_valid_entries [OF assms(3) f len] by simp_all
  obtain out where bq: "pgnq_build_normalized_query jstate0 query 0 ?n toks = Inr (out, int (length out))"
    and o: "out = substituted ?h query 0 0 rs'"
    and bd: "int (length out) \<le> ?n + clocations_count jstate0 * 10"
    using build_total [OF assms(3) f sp assms(5,6)] by blast
  have un': "\<forall>r \<in> set (valid_entries ?j). (\<forall>t \<in> set toks. tok_loc t < location r) \<longrightarrow> length' r = - 1"
    using un unfolding ve .
  have o': "out = substituted ?h query 0 0 (valid_entries ?j)"
    using o unfolding ve .
  show ?thesis
    using res un' bq o' bd by (intro exI [of _ ?j] exI [of _ out] conjI)
qed

section \<open>The scanner runs out of input\<close>

text \<open>
  Claim C5. When the scanner reaches the end of its input before the location of a
  record is reached, the resolver stops: that record and all records after it stay as
  they are. When scanner and parser keep their contracts, for a token stream that may
  be cut short at any token, the call succeeds all the same: the resolver returns,
  every record whose location lies after the start of all tokens keeps the length -1,
  and the builder returns the text in which the resolved records are substituted.
  Records of negative length at the end of the array change nothing in that text:
  their constants are copied as they stand.
\<close>

theorem scanner_exhaustion_is_soft:
  assumes "scanner_contract query toks"
    and "parser_contract query toks (map location (valid_entries jstate0))"
    and "jstate_inv jstate0"
    and "\<forall>r \<in> set (valid_entries jstate0). length' r = - 1"
    and "0 \<le> highest_extern_param_id jstate0"
    and "clocations_count jstate0 + highest_extern_param_id jstate0 \<le> 2147483647"
  shows "(\<forall>last_loc sc r rs.
            0 \<le> location r \<and> last_loc < location r \<and> fst (lex_loop query (location r) sc) = None
            \<longrightarrow> fill_loop query last_loc sc (r # rs) = Inr (r # rs))
       \<and> (\<exists>jstate out.
            pgnq_fill_in_constant_lengths jstate0 query toks = Inr jstate
          \<and> (\<forall>r \<in> set (valid_entries jstate).
                (\<forall>t \<in> set toks. tok_loc t < location r) \<longrightarrow> length' r = - 1)
          \<and> pgnq_build_normalized_query jstate0 query 0 (int (length query)) toks
               = Inr (out, int (length out))
          \<and> out = substituted (highest_extern_param_id jstate0) query 0 0 (valid_entries jstate))
       \<and> (\<forall>i pos rs us. (\<forall>u \<in> set us. length' u < 0) \<longrightarrow>
            substituted (highest_extern_param_id jstate0) query i pos (rs @ us)
              = substituted (highest_extern_param_id jstate0) query i pos rs)"
proof (intro conjI allI impI)
  fix last_loc sc and r :: pgnqLocationLen and rs
  assume a: "0 \<le> location r \<and> last_loc < location r \<and> fst (lex_loop query (location r) sc) = None"
  obtain x sc1 where "lex_loop query (location r) sc = (x, sc1)"
    by (cases "lex_loop query (location r) sc")
  then show "fill_loop query last_loc sc (r # rs) = Inr (r # rs)"
    using a by (simp add: Let_def)
next
  show "\<exists>jstate out.
      pgnq_fill_in_constant_lengths jstate0 query toks = Inr jstate
    \<and> (\<forall>r \<in> set (valid_entries jstate).
          (\<forall>t \<in> set toks. tok_loc t < location r) \<longrightarrow> length' r = - 1)
    \<and> pgnq_build_normalized_query jstate0 query 0 (int (length query)) toks
         = Inr (out, int (length out))
    \<and> out = substituted (highest_extern_param_id jstate0) query 0 0 (valid_entries jstate)"
    using normalization_total [OF assms] by blast
next
  fix i pos and rs us :: "pgnqLocationLen list"
  assume "\<forall>u \<in> set us. length' u < 0"
  then show "substituted (highest_extern_param_id jstate0) query i pos (rs @ us)
      = substituted (highest_extern_param_id jstate0) query i pos rs"
    by (rule substituted_unresolved_tail)
qed

theorem scanner_exhaustion_is_soft_witness:
  "scanner_contract example_query example_tokens
   \<and> parser_contract example_query example_tokens
        (map location (valid_entries (record_all initial_jstate [10, 7, 13])))
   \<and> jstate_inv (record_all initial_jstate [10, 7, 13])
   \<and> highest_extern_param_id (record_all initial_jstate [10, 7, 13]) = 0
   \<and> clocations_count (record_all initial_jstate [10, 7, 13]) = 3
   \<and> fill_loop example_query 10 (scanner_init example_query []) [new_entry 13] = Inr [new_entry 13]
   \<and> (\<exists>jstate. pgnq_fill_in_constant_lengths (record_all initial_jstate [10, 7, 13])
                   example_query example_tokens = Inr jstate
         \<and> valid_entries jstate = [\<lparr>location = 7, length' = 1\<rparr>, \<lparr>location = 10, length' = 1\<rparr>,
                                     \<lparr>location = 13, length' = - 1\<rparr>])
   \<and> pgnq_build_normalized_query (record_all initial_jstate [10, 7, 13]) example_query 0 14 example_tokens
       = Inr (''SELECT $1, $2, 3'', 16)"
proof -
  let ?j = "record_all initial_jstate [10, 7, 13]"
  let ?rs' = "[\<lparr>location = 7, length' = 1\<rparr>, \<lparr>location = 10, length' = 1\<rparr>, \<lparr>location = 13, length' = - 1\<rparr>]"
  have c: "scanner_contract example_query example_tokens"
    by (simp add: scanner_contract_def example_query_def example_tokens_def)
  have i: "jstate_inv ?j"
    by (rule record_all_inv [OF jstate_inv_initial])
  have v: "valid_entries ?j = [new_entry 10, new_entry 7, new_entry 13]"
    by (simp add: initial_valid_entries)
  have p: "parser_contract example_query example_tokens (map location (valid_entries ?j))"
    by (simp add: v new_entry_def parser_contract_def located_def example_query_def example_tokens_def
        byte_at_def)
  have u: "\<forall>r \<in> set (valid_entries ?j). length' r = - 1"
    by (simp add: v new_entry_def)
  have "highest_extern_param_id (record_all jstate locs) = highest_extern_param_id jstate" for jstate locs
    by (induction locs rule: rev_induct) (simp_all add: record_all_def record_highest)
  then have h: "highest_extern_param_id ?j = 0"
    by (simp add: initial_jstate_def)
  have n: "clocations_count ?j = 3"
    using jstate_inv_count [OF i] v by simp
  have h0: "0 \<le> highest_extern_param_id ?j" and h1: "clocations_count ?j + highest_extern_param_id ?j \<le> 2147483647"
    using h n by simp_all
  note T = scanner_exhaustion_is_soft [OF c p i u h0 h1]
  have e: "0 \<le> location (new_entry 13) \<and> 10 < location (new_entry 13)
      \<and> fst (lex_loop example_query (location (new_entry 13)) (scanner_init example_query [])) = None"
    by (simp add: new_entry_def resolver_eval)
  have s: "fill_loop example_query 10 (scanner_init example_query []) [new_entry 13] = Inr [new_entry 13]"
    using T [THEN conjunct1, rule_format, OF e] .
  have f: "fill_loop example_query (- 1) (scanner_init example_query example_tokens) (sorted_entries ?j)
      = Inr ?rs'"
    by (simp add: sorted_entries_def v example_query_def example_tokens_def resolver_eval)
  have r: "pgnq_fill_in_constant_lengths ?j example_query example_tokens
      = Inr (?j\<lparr>clocations := ?rs' @ drop (nat (clocations_count ?j)) (clocations ?j)\<rparr>)"
    and v': "valid_entries (?j\<lparr>clocations := ?rs' @ drop (nat (clocations_count ?j)) (clocations ?j)\<rparr>) = ?rs'"
    using fill_in_valid_entries [OF i f] by (simp_all add: sorted_entries_length v)
  have b: "pgnq_build_normalized_query ?j example_query 0 14 example_tokens = Inr (''SELECT $1, $2, 3'', 16)"
    unfolding build_unfold [OF i f] h
    by (simp add: copy_rest_def example_query_def builder_eval)
  show ?thesis using c p i h n s r v' b by blast
qed

section \<open>A minus sign before a constant\<close>
lemma core_yylex_scanbuf: "core_yylex (sc\<lparr>scanbuf := b\<rparr>) = core_yylex sc"
  by (simp add: core_yylex_def split: list.splits)

lemma lex_loop_scanbuf: "lex_loop query loc (sc\<lparr>scanbuf := b\<rparr>) = lex_loop query loc sc"
  by (simp add: lex_loop.simps [of query loc "sc\<lparr>scanbuf := b\<rparr>"] lex_loop.simps [of query loc sc]
      core_yylex_scanbuf)

lemma lex_loop_skip:
  assumes "\<forall>u \<in> set tp. tok_code u \<noteq> 0 \<and> tok_loc u < loc" "pending sc = tp @ rest"
  shows "lex_loop query loc sc = lex_loop query loc (sc\<lparr>pending := rest\<rparr>)"
  using assms
proof (induction tp arbitrary: sc)
  case Nil
  then have "sc\<lparr>pending := rest\<rparr> = sc" by simp
  then show ?case by simp
next
  case (Cons u tp)
  let ?sc1 = "sc\<lparr>pending := tp @ rest, scanbuf := token_buf (source sc) u\<rparr>"
  have c1: "core_yylex sc = (tok_code u, tok_loc u, ?sc1)"
    using Cons.prems(2) by (intro core_yylex_token) simp
  have "lex_loop query loc sc = lex_loop query loc ?sc1"
    using c1 Cons.prems(1) by (simp add: lex_loop.simps [of query loc sc])
  also have "\<dots> = lex_loop query loc (?sc1\<lparr>pending := rest\<rparr>)"
    using Cons.prems(1) by (intro Cons.IH) simp_all
  also have "?sc1\<lparr>pending := rest\<rparr> = (sc\<lparr>pending := rest\<rparr>)\<lparr>scanbuf := token_buf (source sc) u\<rparr>"
    by simp
  finally show ?case by (simp only: lex_loop_scanbuf)
qed

lemma lex_loop_skip_to:
  "lex_loop query loc sc = lex_loop query loc (sc\<lparr>pending := skip_to loc (pending sc)\<rparr>)"
proof -
  let ?P = "\<lambda>t. tok_code t \<noteq> 0 \<and> tok_loc t < loc"
  have a: "pending sc = takeWhile ?P (pending sc) @ skip_to loc (pending sc)"
    unfolding skip_to_def by (rule takeWhile_dropWhile_id [symmetric])
  have b: "\<forall>u \<in> set (takeWhile ?P (pending sc)). tok_code u \<noteq> 0 \<and> tok_loc u < loc"
    by (auto dest: set_takeWhileD)
  show ?thesis by (rule lex_loop_skip [OF b a])
qed

lemma skip_to_head:
  assumes "skip_to loc ts = t # rest" "tok_code t \<noteq> 0"
  shows "loc \<le> tok_loc t"
proof -
  let ?P = "\<lambda>t. tok_code t \<noteq> 0 \<and> tok_loc t < loc"
  have d: "dropWhile ?P ts = t # rest" using assms(1) by (simp add: skip_to_def)
  then have "dropWhile ?P ts \<noteq> []" by simp
  then have "\<not> ?P (hd (dropWhile ?P ts))" by (rule hd_dropWhile)
  then show ?thesis using assms(2) by (simp add: d)
qed

lemma lex_loop_at:
  assumes "pending sc = t # ts" "tok_code t \<noteq> 0" "loc \<le> tok_loc t"
  shows "byte_at query loc \<noteq> CHR ''-'' \<Longrightarrow>
           lex_loop query loc sc = (Some (const_length (token_buf (source sc) t) loc),
                                    sc\<lparr>pending := ts, scanbuf := token_buf (source sc) t\<rparr>)"
    and "byte_at query loc = CHR ''-'' \<Longrightarrow> ts = t2 # ts2 \<Longrightarrow> tok_code t2 \<noteq> 0 \<Longrightarrow>
           lex_loop query loc sc = (Some (const_length (token_buf (source sc) t2) loc),
                                    sc\<lparr>pending := ts2, scanbuf := token_buf (source sc) t2\<rparr>)"
    and "byte_at query loc = CHR ''-'' \<Longrightarrow> ts = t2 # ts2 \<Longrightarrow> tok_code t2 = 0 \<Longrightarrow>
           fst (lex_loop query loc sc) = None \<and> pending (snd (lex_loop query loc sc)) = ts2"
    and "byte_at query loc = CHR ''-'' \<Longrightarrow> ts = [] \<Longrightarrow>
           fst (lex_loop query loc sc) = None \<and> pending (snd (lex_loop query loc sc)) = []"
proof -
  note c1 = core_yylex_token [OF assms(1)]
  let ?sc1 = "sc\<lparr>pending := ts, scanbuf := token_buf (source sc) t\<rparr>"
  show "lex_loop query loc sc = (Some (const_length (token_buf (source sc) t) loc), ?sc1)"
    if "byte_at query loc \<noteq> CHR ''-''"
    using that c1 assms(2,3) by (simp add: lex_loop.simps [of query loc sc])
  have c2: "core_yylex ?sc1 = (tok_code t2, tok_loc t2,
      ?sc1\<lparr>pending := ts2, scanbuf := token_buf (source ?sc1) t2\<rparr>)" if "ts = t2 # ts2"
    using that by (intro core_yylex_token) simp
  show "lex_loop query loc sc = (Some (const_length (token_buf (source sc) t2) loc),
      sc\<lparr>pending := ts2, scanbuf := token_buf (source sc) t2\<rparr>)"
    if "byte_at query loc = CHR ''-''" "ts = t2 # ts2" "tok_code t2 \<noteq> 0"
    using that c1 c2 assms(2,3) by (simp add: lex_loop.simps [of query loc sc])
  show "fst (lex_loop query loc sc) = None \<and> pending (snd (lex_loop query loc sc)) = ts2"
    if "byte_at query loc = CHR ''-''" "ts = t2 # ts2" "tok_code t2 = 0"
    using that c1 c2 assms(2,3) by (simp add: lex_loop.simps [of query loc sc])
  show "fst (lex_loop query loc sc) = None \<and> pending (snd (lex_loop query loc sc)) = []"
    if "byte_at query loc = CHR ''-''" "ts = []"
    using that c1 assms(2,3) by (simp add: lex_loop.simps [of query loc sc] core_yylex_def)
qed


lemma const_length_plain:
  assumes "NUL \<notin> set query" "0 \<le> loc" "nat loc < tok_end t" "tok_end t \<le> length query"
    and "query ! nat loc \<noteq> CHR ''u''" "query ! nat loc \<noteq> CHR ''U''"
  shows "loc + const_length (token_buf query t) loc = int (tok_end t)"
proof -
  have ct: "const_text (token_buf query t) loc = take (tok_end t - nat loc) (drop (nat loc) query)"
    using assms(1,2,3,4) by (intro const_text_token_buf) simp_all
  have "const_text (token_buf query t) loc ! 0 = query ! nat loc"
    using assms(3,4) by (simp add: ct)
  then have "\<not> unicode_quoted (const_text (token_buf query t) loc)"
    using assms(5,6) by (simp add: unicode_quoted_def)
  then show ?thesis
    by (rule const_length_token_buf(3) [OF assms(1,2,3,4)])
qed

text \<open>A statement with one constant, given the length the resolver finds for it.\<close>

lemma single_constant_text:
  fixes pre mid post :: string
  defines "query \<equiv> pre @ mid @ post"
  assumes "jstate_inv jstate" "valid_entries jstate = [new_entry (int (length pre))]"
    and "0 \<le> highest_extern_param_id jstate" "1 + highest_extern_param_id jstate \<le> 2147483647"
    and "mid \<noteq> []"
    and "lex_loop query (int (length pre)) (scanner_init query toks) = (Some (int (length mid)), sc1)"
  shows "pgnq_build_normalized_query jstate query 0 (int (length query)) toks
           = Inr (pre @ sprintf_param (1 + highest_extern_param_id jstate) @ post,
                  int (length (pre @ sprintf_param (1 + highest_extern_param_id jstate) @ post)))"
proof -
  let ?loc = "int (length pre)" and ?h = "highest_extern_param_id jstate"
  let ?r = "\<lparr>location = ?loc, length' = int (length mid)\<rparr>"
  have se: "sorted_entries jstate = [new_entry ?loc]"
    by (simp add: sorted_entries_def assms(3))
  have f: "fill_loop query (- 1) (scanner_init query toks) (sorted_entries jstate) = Inr [?r]"
    using assms(7) by (simp add: se new_entry_def Let_def)
  have sp: "spans_from 0 (int (length query)) [?r]"
    using assms(6) by (simp add: query_def)
  have cnt: "clocations_count jstate = 1"
    using jstate_inv_count [OF assms(2)] assms(3) by simp
  have ov: "clocations_count jstate + ?h \<le> 2147483647"
    using cnt assms(5) by simp
  obtain out where b: "pgnq_build_normalized_query jstate query 0 (int (length query)) toks
        = Inr (out, int (length out))"
    and o: "out = substituted ?h query 0 0 [?r]"
    using build_total [OF assms(2) f sp assms(4) ov] by blast
  have "substituted ?h query 0 0 [?r] = pre @ sprintf_param (1 + ?h) @ post"
    by (simp add: query_def)
  then show ?thesis using b o by simp
qed

lemma sign_folding:
  fixes pre num post :: string
  defines "loc \<equiv> int (length pre)"
  assumes "\<forall>u \<in> set tp. tok_code u \<noteq> 0 \<and> tok_loc u < loc" "c \<noteq> 0" "m \<noteq> 0"
    and "num \<noteq> []" "hd num \<in> set ''0123456789.''" "NUL \<notin> set (pre @ num @ post)"
    and "jstate_inv jstate" "valid_entries jstate = [new_entry loc]"
    and "0 \<le> highest_extern_param_id jstate" "1 + highest_extern_param_id jstate \<le> 2147483647"
  shows "pgnq_build_normalized_query jstate (pre @ num @ post) 0 (int (length (pre @ num @ post)))
           (tp @ \<lparr>tok_code = c, tok_loc = loc, tok_end = length pre + length num\<rparr> # ts1)
         = Inr (pre @ sprintf_param (1 + highest_extern_param_id jstate) @ post,
                int (length (pre @ sprintf_param (1 + highest_extern_param_id jstate) @ post)))"
    and "pgnq_build_normalized_query jstate (pre @ (CHR ''-'' # num) @ post) 0
           (int (length (pre @ (CHR ''-'' # num) @ post)))
           (tp @ \<lparr>tok_code = m, tok_loc = loc, tok_end = length pre + 1\<rparr>
               # \<lparr>tok_code = c, tok_loc = loc + 1, tok_end = length pre + 1 + length num\<rparr> # ts2)
         = Inr (pre @ sprintf_param (1 + highest_extern_param_id jstate) @ post,
                int (length (pre @ sprintf_param (1 + highest_extern_param_id jstate) @ post)))"
proof -
  have hd_num: "hd num \<noteq> CHR ''-''" "hd num \<noteq> CHR ''u''" "hd num \<noteq> CHR ''U''"
    using assms(6) by auto
  have num0: "num ! 0 = hd num" using assms(5) by (simp add: hd_conv_nth)
  \<comment> \<open>the bare literal\<close>
  let ?bare = "pre @ num @ post"
  let ?nb = "\<lparr>tok_code = c, tok_loc = loc, tok_end = length pre + length num\<rparr>"
  let ?sb = "scanner_init ?bare (tp @ ?nb # ts1)"
  have bb: "?bare ! nat loc = hd num"
    using assms(5) by (simp add: loc_def nth_append num0)
  have byte_b: "byte_at ?bare loc \<noteq> CHR ''-''"
    using bb hd_num(1) assms(5) by (simp add: byte_at_def loc_def)
  have "lex_loop ?bare loc ?sb = lex_loop ?bare loc (?sb\<lparr>pending := ?nb # ts1\<rparr>)"
    using assms(2) by (intro lex_loop_skip [of tp]) (simp_all add: scanner_init_def)
  also have "\<dots> = (Some (const_length (token_buf ?bare ?nb) loc),
      ?sb\<lparr>pending := ts1, scanbuf := token_buf ?bare ?nb\<rparr>)"
    using byte_b assms(3) lex_loop_at(1) [of "?sb\<lparr>pending := ?nb # ts1\<rparr>" ?nb ts1 loc ?bare]
    by (simp add: scanner_init_def)
  finally have lb: "lex_loop ?bare loc ?sb = (Some (const_length (token_buf ?bare ?nb) loc),
      ?sb\<lparr>pending := ts1, scanbuf := token_buf ?bare ?nb\<rparr>)" .
  have "loc + const_length (token_buf ?bare ?nb) loc = int (tok_end ?nb)"
    using assms(5,7) bb hd_num(2,3) by (intro const_length_plain) (simp_all add: loc_def)
  then have cb: "const_length (token_buf ?bare ?nb) loc = int (length num)"
    by (simp add: loc_def)
  show "pgnq_build_normalized_query jstate ?bare 0 (int (length ?bare)) (tp @ ?nb # ts1)
         = Inr (pre @ sprintf_param (1 + highest_extern_param_id jstate) @ post,
                int (length (pre @ sprintf_param (1 + highest_extern_param_id jstate) @ post)))"
    using assms(5,8,9,10,11) lb [unfolded cb]
    by (intro single_constant_text) (simp_all add: loc_def)
  \<comment> \<open>the negated literal\<close>
  let ?neg = "pre @ (CHR ''-'' # num) @ post"
  let ?mt = "\<lparr>tok_code = m, tok_loc = loc, tok_end = length pre + 1\<rparr>"
  let ?nn = "\<lparr>tok_code = c, tok_loc = loc + 1, tok_end = length pre + 1 + length num\<rparr>"
  let ?sn = "scanner_init ?neg (tp @ ?mt # ?nn # ts2)"
  have bn: "?neg ! nat loc = CHR ''-''"
    by (simp add: loc_def nth_append)
  have byte_n: "byte_at ?neg loc = CHR ''-''"
    using bn by (simp add: byte_at_def loc_def)
  have "lex_loop ?neg loc ?sn = lex_loop ?neg loc (?sn\<lparr>pending := ?mt # ?nn # ts2\<rparr>)"
    using assms(2) by (intro lex_loop_skip [of tp]) (simp_all add: scanner_init_def)
  also have "\<dots> = (Some (const_length (token_buf ?neg ?nn) loc),
      ?sn\<lparr>pending := ts2, scanbuf := token_buf ?neg ?nn\<rparr>)"
    using byte_n assms(3,4)
      lex_loop_at(2) [of "?sn\<lparr>pending := ?mt # ?nn # ts2\<rparr>" ?mt "?nn # ts2" loc ?neg ?nn ts2]
    by (simp add: scanner_init_def)
  finally have ln: "lex_loop ?neg loc ?sn = (Some (const_length (token_buf ?neg ?nn) loc),
      ?sn\<lparr>pending := ts2, scanbuf := token_buf ?neg ?nn\<rparr>)" .
  have "loc + const_length (token_buf ?neg ?nn) loc = int (tok_end ?nn)"
    using assms(7) bn by (intro const_length_plain) (simp_all add: loc_def)
  then have cn: "const_length (token_buf ?neg ?nn) loc = int (length (CHR ''-'' # num))"
    by (simp add: loc_def)
  show "pgnq_build_normalized_query jstate ?neg 0 (int (length ?neg)) (tp @ ?mt # ?nn # ts2)
         = Inr (pre @ sprintf_param (1 + highest_extern_param_id jstate) @ post,
                int (length (pre @ sprintf_param (1 + highest_extern_param_id jstate) @ post)))"
    using assms(8,9,10,11) ln [unfolded cn]
    by (intro single_constant_text) (simp_all add: loc_def)
qed


text \<open>
  Claim C4. When the byte of the statement at the location of a record is a minus
  sign, the resolver, once the scanner has produced the token that reaches the
  location, takes exactly one more token before it measures: the scanner is left
  after that second token, and the length is measured from the location in the buffer
  that ends at that second token, so that for a token lying in a text without NUL
  bytes the span runs from the minus sign to the end of the literal. When that second
  pull finds the end of the input, the resolver stops and leaves this record and all
  later ones as they are. Hence a statement with a numeric literal and the statement
  with a minus sign put before that literal, with the constant recorded at the same
  place, are rewritten to the same text.
\<close>

theorem minus_sign_merges_next_token:
  assumes "source sc = query" "0 \<le> loc" "byte_at query loc = CHR ''-''"
    and "skip_to loc (pending sc) = t # rest" "tok_code t \<noteq> 0"
  shows "fst (lex_loop query loc sc)
           = (case rest of
                [] \<Rightarrow> None
              | t2 # ts2 \<Rightarrow> if tok_code t2 = 0 then None
                            else Some (const_length (token_buf query t2) loc))
       \<and> pending (snd (lex_loop query loc sc)) = tl rest
       \<and> (\<forall>t2 ts2. rest = t2 # ts2 \<and> tok_code t2 \<noteq> 0 \<and> NUL \<notin> set query
              \<and> nat loc < tok_end t2 \<and> tok_end t2 \<le> length query
            \<longrightarrow> loc + const_length (token_buf query t2) loc = int (tok_end t2))
       \<and> (\<forall>last_loc r rs. location r = loc \<and> last_loc < loc \<and> fst (lex_loop query loc sc) = None
            \<longrightarrow> fill_loop query last_loc sc (r # rs) = Inr (r # rs))
       \<and> (\<forall>pre num post tp ts1 ts2 c m jstate.
            (\<forall>u \<in> set tp. tok_code u \<noteq> 0 \<and> tok_loc u < int (length pre)) \<and> c \<noteq> 0 \<and> m \<noteq> 0
              \<and> num \<noteq> [] \<and> hd num \<in> set ''0123456789.'' \<and> NUL \<notin> set (pre @ num @ post)
              \<and> jstate_inv jstate \<and> valid_entries jstate = [new_entry (int (length pre))]
              \<and> 0 \<le> highest_extern_param_id jstate \<and> 1 + highest_extern_param_id jstate \<le> 2147483647
            \<longrightarrow> pgnq_build_normalized_query jstate (pre @ num @ post) 0 (int (length (pre @ num @ post)))
                  (tp @ \<lparr>tok_code = c, tok_loc = int (length pre), tok_end = length pre + length num\<rparr> # ts1)
                = Inr (pre @ sprintf_param (1 + highest_extern_param_id jstate) @ post,
                       int (length (pre @ sprintf_param (1 + highest_extern_param_id jstate) @ post)))
              \<and> pgnq_build_normalized_query jstate (pre @ (CHR ''-'' # num) @ post) 0
                  (int (length (pre @ (CHR ''-'' # num) @ post)))
                  (tp @ \<lparr>tok_code = m, tok_loc = int (length pre), tok_end = length pre + 1\<rparr>
                      # \<lparr>tok_code = c, tok_loc = int (length pre) + 1, tok_end = length pre + 1 + length num\<rparr>
                      # ts2)
                = Inr (pre @ sprintf_param (1 + highest_extern_param_id jstate) @ post,
                       int (length (pre @ sprintf_param (1 + highest_extern_param_id jstate) @ post))))"
proof -
  let ?sc = "sc\<lparr>pending := t # rest\<rparr>"
  have sk: "lex_loop query loc sc = lex_loop query loc ?sc"
    using lex_loop_skip_to [of query loc sc] assms(4) by simp
  have reach: "loc \<le> tok_loc t" using assms(4,5) by (rule skip_to_head)
  have pend: "pending ?sc = t # rest" and src: "source ?sc = query"
    using assms(1) by simp_all
  note at = lex_loop_at(2,3,4) [OF pend assms(5) reach assms(3), unfolded src]
  have a: "fst (lex_loop query loc sc)
      = (case rest of [] \<Rightarrow> None
         | t2 # ts2 \<Rightarrow> if tok_code t2 = 0 then None else Some (const_length (token_buf query t2) loc))"
    and b: "pending (snd (lex_loop query loc sc)) = tl rest"
  proof -
    show "fst (lex_loop query loc sc)
      = (case rest of [] \<Rightarrow> None
         | t2 # ts2 \<Rightarrow> if tok_code t2 = 0 then None else Some (const_length (token_buf query t2) loc))"
    proof (cases rest)
      case Nil
      then show ?thesis using at(3) sk by simp
    next
      case (Cons t2 ts2)
      then show ?thesis using at(1) [OF Cons] at(2) [OF Cons] sk by (cases "tok_code t2 = 0") simp_all
    qed
    show "pending (snd (lex_loop query loc sc)) = tl rest"
    proof (cases rest)
      case Nil
      then show ?thesis using at(3) sk by simp
    next
      case (Cons t2 ts2)
      then show ?thesis using at(1) [OF Cons] at(2) [OF Cons] sk by (cases "tok_code t2 = 0") simp_all
    qed
  qed
  have c: "\<forall>t2 ts2. rest = t2 # ts2 \<and> tok_code t2 \<noteq> 0 \<and> NUL \<notin> set query
        \<and> nat loc < tok_end t2 \<and> tok_end t2 \<le> length query
      \<longrightarrow> loc + const_length (token_buf query t2) loc = int (tok_end t2)"
  proof (intro allI impI)
    fix t2 :: token and ts2 :: "token list"
    assume h: "rest = t2 # ts2 \<and> tok_code t2 \<noteq> 0 \<and> NUL \<notin> set query
        \<and> nat loc < tok_end t2 \<and> tok_end t2 \<le> length query"
    have "query ! nat loc = CHR ''-''"
      using assms(2,3) by (auto simp: byte_at_def split: if_splits)
    then show "loc + const_length (token_buf query t2) loc = int (tok_end t2)"
      using h assms(2) by (intro const_length_plain) simp_all
  qed
  have d: "\<forall>last_loc r rs. location r = loc \<and> last_loc < loc \<and> fst (lex_loop query loc sc) = None
      \<longrightarrow> fill_loop query last_loc sc (r # rs) = Inr (r # rs)"
  proof (intro allI impI)
    fix last_loc and r :: pgnqLocationLen and rs
    assume h: "location r = loc \<and> last_loc < loc \<and> fst (lex_loop query loc sc) = None"
    obtain x sc1 where "lex_loop query loc sc = (x, sc1)" by (cases "lex_loop query loc sc")
    then show "fill_loop query last_loc sc (r # rs) = Inr (r # rs)"
      using h assms(2) by (simp add: Let_def)
  qed
  have e: "pgnq_build_normalized_query jstate (pre @ num @ post) 0 (int (length (pre @ num @ post)))
          (tp @ \<lparr>tok_code = c, tok_loc = int (length pre), tok_end = length pre + length num\<rparr> # ts1)
        = Inr (pre @ sprintf_param (1 + highest_extern_param_id jstate) @ post,
               int (length (pre @ sprintf_param (1 + highest_extern_param_id jstate) @ post)))
      \<and> pgnq_build_normalized_query jstate (pre @ (CHR ''-'' # num) @ post) 0
          (int (length (pre @ (CHR ''-'' # num) @ post)))
          (tp @ \<lparr>tok_code = m, tok_loc = int (length pre), tok_end = length pre + 1\<rparr>
              # \<lparr>tok_code = c, tok_loc = int (length pre) + 1, tok_end = length pre + 1 + length num\<rparr>
              # ts2)
        = Inr (pre @ sprintf_param (1 + highest_extern_param_id jstate) @ post,
               int (length (pre @ sprintf_param (1 + highest_extern_param_id jstate) @ post)))"
    if h: "(\<forall>u \<in> set tp. tok_code u \<noteq> 0 \<and> tok_loc u < int (length pre)) \<and> c \<noteq> 0 \<and> m \<noteq> 0
        \<and> num \<noteq> [] \<and> hd num \<in> set ''0123456789.'' \<and> NUL \<notin> set (pre @ num @ post)
        \<and> jstate_inv jstate \<and> valid_entries jstate = [new_entry (int (length pre))]
        \<and> 0 \<le> highest_extern_param_id jstate \<and> 1 + highest_extern_param_id jstate \<le> 2147483647"
    for pre num post tp ts1 ts2 c m jstate
  proof -
    from h have h1: "\<forall>u \<in> set tp. tok_code u \<noteq> 0 \<and> tok_loc u < int (length pre)"
      and h2: "c \<noteq> 0" and h3: "m \<noteq> 0" and h4: "num \<noteq> []" and h5: "hd num \<in> set ''0123456789.''"
      and h6: "NUL \<notin> set (pre @ num @ post)" and h7: "jstate_inv jstate"
      and h8: "valid_entries jstate = [new_entry (int (length pre))]"
      and h9: "0 \<le> highest_extern_param_id jstate"
      and h10: "1 + highest_extern_param_id jstate \<le> 2147483647"
      by blast+
    show ?thesis
      by (rule conjI [OF sign_folding(1) [OF h1 h2 h3 h4 h5 h6 h7 h8 h9 h10]
            sign_folding(2) [OF h1 h2 h3 h4 h5 h6 h7 h8 h9 h10]])
  qed
  show ?thesis
    apply (intro conjI)
        apply (rule a)
       apply (rule b)
      apply (rule c)
     apply (rule d)
    apply (intro allI impI)
    apply (erule e)
    done
qed


theorem minus_sign_merges_next_token_witness:
  "source (scanner_init example_neg_query example_neg_tokens) = example_neg_query
   \<and> byte_at example_neg_query 7 = CHR ''-''
   \<and> skip_to 7 (pending (scanner_init example_neg_query example_neg_tokens))
       = [\<lparr>tok_code = 1, tok_loc = 7, tok_end = 8\<rparr>, \<lparr>tok_code = 1, tok_loc = 8, tok_end = 9\<rparr>]
   \<and> fst (lex_loop example_neg_query 7 (scanner_init example_neg_query example_neg_tokens)) = Some 2
   \<and> pending (snd (lex_loop example_neg_query 7 (scanner_init example_neg_query example_neg_tokens))) = []
   \<and> pgnq_build_normalized_query (record_all initial_jstate [7]) ''SELECT 1'' 0 8
        [\<lparr>tok_code = 1, tok_loc = 0, tok_end = 6\<rparr>, \<lparr>tok_code = 1, tok_loc = 7, tok_end = 8\<rparr>]
       = Inr (''SELECT $1'', 9)
   \<and> pgnq_build_normalized_query (record_all initial_jstate [7]) ''SELECT -1'' 0 9
        [\<lparr>tok_code = 1, tok_loc = 0, tok_end = 6\<rparr>, \<lparr>tok_code = 1, tok_loc = 7, tok_end = 8\<rparr>,
         \<lparr>tok_code = 1, tok_loc = 8, tok_end = 9\<rparr>]
       = Inr (''SELECT $1'', 9)"
proof -
  let ?q = example_neg_query
  let ?sc = "scanner_init example_neg_query example_neg_tokens"
  let ?mt = "\<lparr>tok_code = 1, tok_loc = 7, tok_end = 8\<rparr>"
  let ?nt = "\<lparr>tok_code = 1, tok_loc = 8, tok_end = 9\<rparr>"
  let ?j = "record_all initial_jstate [7]"
  have a1: "source ?sc = ?q" by (simp add: scanner_init_def)
  have a2: "(0::int) \<le> 7" by simp
  have a3: "byte_at ?q 7 = CHR ''-''" by (simp add: byte_at_def example_neg_query_def)
  have a4: "skip_to 7 (pending ?sc) = ?mt # [?nt]"
    by (simp add: skip_to_def scanner_init_def example_neg_tokens_def)
  have a5: "tok_code ?mt \<noteq> 0" by simp
  note T = minus_sign_merges_next_token [OF a1 a2 a3 a4 a5]
  have cl: "const_length (token_buf ?q ?nt) 7 = 2"
    by (simp add: token_buf_def example_neg_query_def resolver_eval)
  have f: "fst (lex_loop ?q 7 ?sc) = Some 2"
    using T [THEN conjunct1] by (simp add: cl)
  have p: "pending (snd (lex_loop ?q 7 ?sc)) = []"
    using T [THEN conjunct2, THEN conjunct1] by simp
  have i: "jstate_inv ?j" by (rule record_all_inv [OF jstate_inv_initial])
  have v: "valid_entries ?j = [new_entry 7]" by (simp add: initial_valid_entries)
  have "highest_extern_param_id (record_all jstate locs) = highest_extern_param_id jstate" for jstate locs
    by (induction locs rule: rev_induct) (simp_all add: record_all_def record_highest)
  then have h: "highest_extern_param_id ?j = 0"
    by (simp add: initial_jstate_def)
  have sp: "sprintf_param 1 = ''$1''"
    by (simp add: sprintf_param_def show_int_def dec_digits.simps)
  have "pgnq_build_normalized_query ?j (''SELECT '' @ ''1'' @ []) 0 (int (length (''SELECT '' @ ''1'' @ [])))
          ([\<lparr>tok_code = 1, tok_loc = 0, tok_end = 6\<rparr>]
             @ \<lparr>tok_code = 1, tok_loc = int (length ''SELECT ''), tok_end = length ''SELECT '' + length ''1''\<rparr> # [])
        = Inr (''SELECT '' @ sprintf_param (1 + highest_extern_param_id ?j) @ [],
               int (length (''SELECT '' @ sprintf_param (1 + highest_extern_param_id ?j) @ [])))
      \<and> pgnq_build_normalized_query ?j (''SELECT '' @ (CHR ''-'' # ''1'') @ []) 0
          (int (length (''SELECT '' @ (CHR ''-'' # ''1'') @ [])))
          ([\<lparr>tok_code = 1, tok_loc = 0, tok_end = 6\<rparr>]
             @ \<lparr>tok_code = 1, tok_loc = int (length ''SELECT ''), tok_end = length ''SELECT '' + 1\<rparr>
              # \<lparr>tok_code = 1, tok_loc = int (length ''SELECT '') + 1, tok_end = length ''SELECT '' + 1 + length ''1''\<rparr>
              # [])
        = Inr (''SELECT '' @ sprintf_param (1 + highest_extern_param_id ?j) @ [],
               int (length (''SELECT '' @ sprintf_param (1 + highest_extern_param_id ?j) @ [])))"
    by (rule T [THEN conjunct2, THEN conjunct2, THEN conjunct2, THEN conjunct2, rule_format])
      (simp add: i v h)
  then have g: "pgnq_build_normalized_query ?j ''SELECT 1'' 0 8
        [\<lparr>tok_code = 1, tok_loc = 0, tok_end = 6\<rparr>, \<lparr>tok_code = 1, tok_loc = 7, tok_end = 8\<rparr>]
       = Inr (''SELECT $1'', 9)
   \<and> pgnq_build_normalized_query ?j ''SELECT -1'' 0 9
        [\<lparr>tok_code = 1, tok_loc = 0, tok_end = 6\<rparr>, \<lparr>tok_code = 1, tok_loc = 7, tok_end = 8\<rparr>,
         \<lparr>tok_code = 1, tok_loc = 8, tok_end = 9\<rparr>]
       = Inr (''SELECT $1'', 9)"
    by (simp add: h sp eval_nat_numeral)
  show ?thesis using a1 a3 a4 f p g by simp
qed


end
